theory Spec2Isabelle
  imports Complex_Main "HOL-Library.Multiset" "HOL-Library.Sublist" "HOL-Library.Log_Nat"
begin

section \<open>Data model (lib/types.ts)\<close>

text \<open>
  A TypeScript \<open>number\<close> that holds a measurement of the data pipeline (a timestamp in
  whole milliseconds, a value, a bucket width, a memory sample in whole megabytes) is
  modelled as a \<open>real\<close>, with exact arithmetic. The scroll virtualizer and the coordinate
  mapper take arbitrary numbers and divide them, so they are modelled in the arithmetic
  of the double format, with its rounding and its special values (type \<open>jsnum\<close> below).

  \<open>metadata\<close> is an optional string-keyed record of arbitrary values; the values the
  repository stores there are booleans and numbers.
\<close>

datatype meta_value = MBool bool | MNum real | MStr string

record DataPoint =
  timestamp :: real
  "value" :: real
  category :: string
  metadata :: "(string \<times> meta_value) list option"

definition mkPoint :: "real \<Rightarrow> real \<Rightarrow> string \<Rightarrow> DataPoint" where
  \<comment> \<open>the object literal \<open>{timestamp, value, category}\<close>, without metadata\<close>
  "mkPoint ts v cat = \<lparr>timestamp = ts, value = v, category = cat, metadata = None\<rparr>"

text \<open>\<open>TimeRange = '1min' | '5min' | '1hour' | 'all'\<close>\<close>

datatype TimeRange = Min1 | Min5 | Hour1 | AllTime

record FilterConfig =
  categories :: "string list"
  timeRange :: TimeRange
  startTime :: "real option"
  endTime :: "real option"

section \<open>Stream buffer\<close>

text \<open>
  \<open>Array.prototype.sort\<close> with the comparator \<open>(a, b) => a.timestamp - b.timestamp\<close>
  is a stable sort on the timestamp; \<open>sort_key\<close> is the stable insertion sort.
  \<open>combined.slice(-10000)\<close> keeps the last 10000 elements, and all of them when there
  are fewer (\<open>-\<close> on \<open>nat\<close> stops at 0, as the clamped start index of \<open>slice\<close> does).
\<close>

definition addData :: "DataPoint list \<Rightarrow> DataPoint list \<Rightarrow> DataPoint list" where
  \<comment> \<open>components/providers/DataProvider.tsx, \<open>addData\<close>: the state update on \<open>prev\<close>\<close>
  "addData newData prev =
     (let combined = sort_key timestamp (prev @ newData)
      in drop (length combined - 10000) combined)"

definition stream_addData :: "nat \<Rightarrow> DataPoint list \<Rightarrow> DataPoint list \<Rightarrow> DataPoint list" where
  \<comment> \<open>the hook \<open>useDataStream\<close> (its source follows the notes in PERFORMANCE.md),
      \<open>addData\<close>: the same buffer with the capacity as the option \<open>maxDataPoints\<close>\<close>
  "stream_addData maxDataPoints newData prevData =
     (let combined = sort_key timestamp (prevData @ newData)
      in if length combined > maxDataPoints
         then drop (length combined - maxDataPoints) combined
         else combined)"

definition appendAll :: "DataPoint list list \<Rightarrow> DataPoint list" where
  \<comment> \<open>a sequence of \<open>addData\<close> calls on the provider, starting from the empty buffer\<close>
  "appendAll batches = foldl (\<lambda>prev newData. addData newData prev) [] batches"

definition stream_appendAll :: "nat \<Rightarrow> DataPoint list list \<Rightarrow> DataPoint list" where
  "stream_appendAll maxDataPoints batches =
     foldl (\<lambda>prev newData. stream_addData maxDataPoints newData prev) [] batches"

section \<open>Filtering and bucket aggregation (DataProvider.tsx)\<close>

definition filteredData :: "FilterConfig \<Rightarrow> DataPoint list \<Rightarrow> DataPoint list" where
  "filteredData filterConfig data =
     (let filtered = data;
          filtered = (if length (categories filterConfig) > 0
                      then filter (\<lambda>point. category point \<in> set (categories filterConfig)) filtered
                      else filtered);
          filtered = (case startTime filterConfig of
                        Some s \<Rightarrow> filter (\<lambda>point. timestamp point \<ge> s) filtered
                      | None \<Rightarrow> filtered);
          filtered = (case endTime filterConfig of
                        Some e \<Rightarrow> filter (\<lambda>point. timestamp point \<le> e) filtered
                      | None \<Rightarrow> filtered)
      in filtered)"

text \<open>
  A JavaScript \<open>Map\<close> iterates in insertion order, so it is an association list.
  \<open>map_push k v m\<close> is the idiom
  \<open>if (!m.has(k)) m.set(k, []); m.get(k).push(v)\<close>: a new key goes to the end with the
  one-element list, a known key keeps its place and its list grows at the end.
\<close>

fun map_push :: "'k \<Rightarrow> 'v \<Rightarrow> ('k \<times> 'v list) list \<Rightarrow> ('k \<times> 'v list) list" where
  "map_push k v [] = [(k, [v])]"
| "map_push k v ((k', vs) # m) =
     (if k' = k then (k', vs @ [v]) # m else (k', vs) # map_push k v m)"

definition group_into :: "('a \<Rightarrow> 'k) \<Rightarrow> ('a \<Rightarrow> 'v) \<Rightarrow> 'a list \<Rightarrow> ('k \<times> 'v list) list" where
  \<comment> \<open>\<open>xs.forEach(x => push(key(x), val(x)))\<close> into an empty \<open>Map\<close>\<close>
  "group_into key val xs = foldl (\<lambda>m x. map_push (key x) (val x) m) [] xs"

definition bucketKey :: "real \<Rightarrow> DataPoint \<Rightarrow> real" where
  \<comment> \<open>\<open>Math.floor(point.timestamp / bucketSize) * bucketSize\<close>\<close>
  "bucketKey bucketSize point = of_int \<lfloor>timestamp point / bucketSize\<rfloor> * bucketSize"

definition aggregatedPoint :: "real \<Rightarrow> string \<times> real list \<Rightarrow> DataPoint" where
  \<comment> \<open>the point pushed for one category of one bucket; \<open>values.reduce((a, b) => a + b, 0)\<close>
      is the left fold\<close>
  "aggregatedPoint ts = (\<lambda>(cat, values).
     \<lparr>timestamp = ts,
      value = foldl (+) 0 values / real (length values),
      category = cat,
      metadata = Some [(''aggregated'', MBool True), (''count'', MNum (real (length values)))]\<rparr>)"

definition aggregateBucket :: "real \<times> DataPoint list \<Rightarrow> DataPoint list" where
  \<comment> \<open>the body of \<open>buckets.forEach((points, timestamp) => ...)\<close>\<close>
  "aggregateBucket = (\<lambda>(ts, points).
     map (aggregatedPoint ts) (group_into category value points))"

definition aggregated :: "real \<Rightarrow> DataPoint list \<Rightarrow> DataPoint list" where
  \<comment> \<open>\<open>aggregateByTimeRange\<close> from "Group data into buckets" on, for the bucket size it
      has looked up: the array \<open>aggregated\<close> before the final sort\<close>
  "aggregated bucketSize points =
     (let buckets = group_into (bucketKey bucketSize) (\<lambda>point. point) points
      in concat (map aggregateBucket buckets))"

definition aggregateBuckets :: "real \<Rightarrow> DataPoint list \<Rightarrow> DataPoint list" where
  \<comment> \<open>\<open>return aggregated.sort((a, b) => a.timestamp - b.timestamp)\<close>\<close>
  "aggregateBuckets bucketSize points = sort_key timestamp (aggregated bucketSize points)"

definition bucketSizeOf :: "TimeRange \<Rightarrow> real option" where
  \<comment> \<open>the lookup in the object literal; a key it does not have gives \<open>undefined\<close>\<close>
  "bucketSizeOf tr =
     (case tr of
        Min1 \<Rightarrow> Some (60 * 1000)
      | Min5 \<Rightarrow> Some (5 * 60 * 1000)
      | Hour1 \<Rightarrow> Some (60 * 60 * 1000)
      | AllTime \<Rightarrow> None)"

definition aggregateWithBucketSize :: "real option \<Rightarrow> DataPoint list \<Rightarrow> DataPoint list" where
  \<comment> \<open>\<open>if (!bucketSize) return filteredData;\<close> and what follows: \<open>undefined\<close> and \<open>0\<close>
      are the falsy bucket sizes\<close>
  "aggregateWithBucketSize bucketSize points =
     (case bucketSize of
        None \<Rightarrow> points
      | Some b \<Rightarrow> if b = 0 then points else aggregateBuckets b points)"

definition aggregateByTimeRange :: "TimeRange \<Rightarrow> DataPoint list \<Rightarrow> DataPoint list" where
  \<comment> \<open>the second argument is the provider's current \<open>filteredData\<close>\<close>
  "aggregateByTimeRange tr points =
     (if tr = AllTime \<or> length points = 0 then points
      else aggregateWithBucketSize (bucketSizeOf tr) points)"

definition pointCount :: "DataPoint \<Rightarrow> real option" where
  \<comment> \<open>\<open>point.metadata?.count\<close>, when it is a number\<close>
  "pointCount p =
     (case metadata p of
        None \<Rightarrow> None
      | Some kvs \<Rightarrow> (case map_of kvs ''count'' of Some (MNum n) \<Rightarrow> Some n | _ \<Rightarrow> None))"

definition sameBucket :: "real \<Rightarrow> DataPoint \<Rightarrow> DataPoint \<Rightarrow> bool" where
  \<comment> \<open>the input point \<open>p\<close> falls into the (bucket, category) pair of the emitted point \<open>q\<close>\<close>
  "sameBucket b q p \<longleftrightarrow> bucketKey b p = timestamp q \<and> category p = category q"

section \<open>Double-precision arithmetic\<close>

text \<open>
  A JavaScript number is an IEEE 754 binary64 value: a finite double, \<open>Infinity\<close>,
  \<open>-Infinity\<close> or \<open>NaN\<close>. An arithmetic operation returns the exact result rounded to
  the nearest double, ties to the even significand (\<open>binary64\<close>): a significand of 53
  bits, exponents from \<open>-1022\<close> (below which the spacing stays \<open>2^-1074\<close>, the subnormal
  numbers), and \<open>Infinity\<close> once the rounded magnitude reaches \<open>2^1024\<close>. The two zeros
  are not told apart: a zero divisor counts as \<open>+0\<close>, which is what \<open>a - a\<close> evaluates to.
\<close>

datatype jsnum = Fin real | PInf | NInf | NaN

definition rne :: "real \<Rightarrow> int" where
  \<comment> \<open>the nearest integer, a tie going to the even one\<close>
  "rne r = (let f = \<lfloor>r\<rfloor>; d = r - of_int f
            in if d < 1/2 then f else if 1/2 < d then f + 1 else if even f then f else f + 1)"

definition expo :: "real \<Rightarrow> int" where
  \<comment> \<open>the exponent \<open>e\<close> with \<open>2^e \<le> |x| < 2^(e+1)\<close>, not below \<open>-1022\<close>\<close>
  "expo x = max (- 1022)
     (if 1 \<le> \<bar>x\<bar> then int (floorlog 2 (nat \<lfloor>\<bar>x\<bar>\<rfloor>)) - 1
      else - int (floorlog 2 (nat (\<lceil>1 / \<bar>x\<bar>\<rceil> - 1))))"

definition rounded :: "real \<Rightarrow> real" where
  \<comment> \<open>\<open>x\<close> rounded to a multiple of the spacing of the doubles around it\<close>
  "rounded x = (let q = 2 powi (expo x - 52) in of_int (rne (x / q)) * q)"

definition overflow_bound :: real where
  "overflow_bound = 2 ^ 1024"

definition binary64 :: "real \<Rightarrow> jsnum" where
  "binary64 x =
     (if x = 0 then Fin 0
      else if overflow_bound \<le> \<bar>rounded x\<bar> then (if 0 < x then PInf else NInf)
      else Fin (rounded x))"

definition min_double :: real where
  \<comment> \<open>the smallest positive double, \<open>Number.MIN_VALUE\<close>\<close>
  "min_double = 2 powi (- 1074)"

definition representable :: "real \<Rightarrow> bool" where
  \<comment> \<open>\<open>x\<close> is a finite double\<close>
  "representable x \<longleftrightarrow> binary64 x = Fin x"

fun isFinite :: "jsnum \<Rightarrow> bool" where
  "isFinite (Fin a) = True"
| "isFinite _ = False"

fun jneg :: "jsnum \<Rightarrow> jsnum" where
  "jneg (Fin a) = Fin (- a)"
| "jneg PInf = NInf"
| "jneg NInf = PInf"
| "jneg NaN = NaN"

fun jadd :: "jsnum \<Rightarrow> jsnum \<Rightarrow> jsnum" where
  "jadd (Fin a) (Fin b) = binary64 (a + b)"
| "jadd NaN _ = NaN"
| "jadd _ NaN = NaN"
| "jadd PInf NInf = NaN"
| "jadd NInf PInf = NaN"
| "jadd PInf _ = PInf"
| "jadd _ PInf = PInf"
| "jadd NInf _ = NInf"
| "jadd _ NInf = NInf"

definition jsub :: "jsnum \<Rightarrow> jsnum \<Rightarrow> jsnum" where
  "jsub a b = jadd a (jneg b)"

fun jmul :: "jsnum \<Rightarrow> jsnum \<Rightarrow> jsnum" where
  "jmul (Fin a) (Fin b) = binary64 (a * b)"
| "jmul NaN _ = NaN"
| "jmul _ NaN = NaN"
| "jmul PInf (Fin b) = (if b = 0 then NaN else if b > 0 then PInf else NInf)"
| "jmul NInf (Fin b) = (if b = 0 then NaN else if b > 0 then NInf else PInf)"
| "jmul (Fin a) PInf = (if a = 0 then NaN else if a > 0 then PInf else NInf)"
| "jmul (Fin a) NInf = (if a = 0 then NaN else if a > 0 then NInf else PInf)"
| "jmul PInf PInf = PInf"
| "jmul NInf NInf = PInf"
| "jmul PInf NInf = NInf"
| "jmul NInf PInf = NInf"

fun jdiv :: "jsnum \<Rightarrow> jsnum \<Rightarrow> jsnum" where
  "jdiv (Fin a) (Fin b) =
     (if b = 0 then (if a = 0 then NaN else if a > 0 then PInf else NInf)
      else binary64 (a / b))"
| "jdiv NaN _ = NaN"
| "jdiv _ NaN = NaN"
| "jdiv (Fin a) _ = Fin 0"
| "jdiv PInf (Fin b) = (if b \<ge> 0 then PInf else NInf)"
| "jdiv NInf (Fin b) = (if b \<ge> 0 then NInf else PInf)"
| "jdiv _ _ = NaN"

text \<open>
  \<open>Math.floor\<close> and \<open>Math.ceil\<close> are exact (the floor of a double is a double),
  \<open>Math.max\<close> and \<open>Math.min\<close> return \<open>NaN\<close> when an argument is \<open>NaN\<close>, and a comparison
  with \<open>NaN\<close> is false.
\<close>

fun jfloor :: "jsnum \<Rightarrow> jsnum" where
  "jfloor (Fin a) = Fin (of_int \<lfloor>a\<rfloor>)"
| "jfloor x = x"

fun jceil :: "jsnum \<Rightarrow> jsnum" where
  "jceil (Fin a) = Fin (of_int \<lceil>a\<rceil>)"
| "jceil x = x"

fun jmax :: "jsnum \<Rightarrow> jsnum \<Rightarrow> jsnum" where
  "jmax (Fin a) (Fin b) = Fin (max a b)"
| "jmax NaN _ = NaN"
| "jmax _ NaN = NaN"
| "jmax PInf _ = PInf"
| "jmax _ PInf = PInf"
| "jmax NInf x = x"
| "jmax x NInf = x"

fun jmin :: "jsnum \<Rightarrow> jsnum \<Rightarrow> jsnum" where
  "jmin (Fin a) (Fin b) = Fin (min a b)"
| "jmin NaN _ = NaN"
| "jmin _ NaN = NaN"
| "jmin NInf _ = NInf"
| "jmin _ NInf = NInf"
| "jmin PInf x = x"
| "jmin x PInf = x"

fun jle :: "jsnum \<Rightarrow> jsnum \<Rightarrow> bool" where
  "jle (Fin a) (Fin b) = (a \<le> b)"
| "jle NaN _ = False"
| "jle _ NaN = False"
| "jle NInf _ = True"
| "jle _ PInf = True"
| "jle _ _ = False"

fun jlt :: "jsnum \<Rightarrow> jsnum \<Rightarrow> bool" where
  "jlt (Fin a) (Fin b) = (a < b)"
| "jlt NaN _ = False"
| "jlt _ NaN = False"
| "jlt PInf _ = False"
| "jlt _ NInf = False"
| "jlt _ _ = True"

section \<open>Scroll virtualizer (hooks/useVirtualization.ts)\<close>

record VisibleRange =
  startIndex :: jsnum
  endIndex :: jsnum

definition visibleRange :: "jsnum \<Rightarrow> jsnum \<Rightarrow> jsnum \<Rightarrow> jsnum \<Rightarrow> jsnum \<Rightarrow> VisibleRange" where
  "visibleRange scrollTop itemHeight containerHeight totalItems overscan =
     (let startIndex = jfloor (jdiv scrollTop itemHeight);
          endIndex = jceil (jdiv (jadd scrollTop containerHeight) itemHeight);
          startWithOverscan = jmax (Fin 0) (jsub startIndex overscan);
          endWithOverscan = jmin (jsub totalItems (Fin 1)) (jadd endIndex overscan)
      in \<lparr>startIndex = startWithOverscan, endIndex = endWithOverscan\<rparr>)"

section \<open>Memory monitor (lib/performanceUtils.ts)\<close>

record MemoryMonitor =
  samples :: "real list"
  maxSamples :: nat

definition newMemoryMonitor :: MemoryMonitor where
  "newMemoryMonitor = \<lparr>samples = [], maxSamples = 60\<rparr>"

definition sample :: "real \<Rightarrow> MemoryMonitor \<Rightarrow> MemoryMonitor" where
  \<comment> \<open>\<open>usage\<close> is what \<open>getMemoryUsage()\<close> returns at the call; \<open>shift()\<close> drops the head\<close>
  "sample usage mon =
     (let pushed = samples mon @ [usage]
      in if length pushed > maxSamples mon
         then mon\<lparr>samples := tl pushed\<rparr>
         else mon\<lparr>samples := pushed\<rparr>)"

definition isGrowing :: "real \<Rightarrow> MemoryMonitor \<Rightarrow> bool" where
  "isGrowing thresholdMB mon =
     (if length (samples mon) < 10 then False
      else (let first = hd (samples mon);
                last = last (samples mon)
            in (last - first) > thresholdMB))"

definition sampleAll :: "real list \<Rightarrow> MemoryMonitor" where
  \<comment> \<open>a new monitor after one \<open>sample()\<close> call per reading, oldest reading first\<close>
  "sampleAll usages = foldl (\<lambda>mon usage. sample usage mon) newMemoryMonitor usages"

section \<open>Coordinate mapper (lib/canvasUtils.ts)\<close>

text \<open>
  The mapper divides by differences that can be zero: \<open>x / 0\<close> is \<open>Infinity\<close>,
  \<open>-Infinity\<close> or \<open>NaN\<close>, never an exception.
\<close>

record ChartViewport =
  xMin :: jsnum
  xMax :: jsnum
  yMin :: jsnum
  yMax :: jsnum
  scale :: jsnum

text \<open>The padding object \<open>{top, right, bottom, left}\<close>.\<close>

record Padding =
  top_pad :: jsnum
  right_pad :: jsnum
  bottom_pad :: jsnum
  left_pad :: jsnum

definition defaultPadding :: Padding where
  "defaultPadding = \<lparr>top_pad = Fin 20, right_pad = Fin 20, bottom_pad = Fin 40, left_pad = Fin 60\<rparr>"

definition dataToCanvas ::
  "jsnum \<Rightarrow> jsnum \<Rightarrow> ChartViewport \<Rightarrow> jsnum \<Rightarrow> jsnum \<Rightarrow> Padding \<Rightarrow> jsnum \<times> jsnum" where
  "dataToCanvas dataX dataY viewport canvasWidth canvasHeight padding =
     (let plotWidth = jsub (jsub canvasWidth (left_pad padding)) (right_pad padding);
          plotHeight = jsub (jsub canvasHeight (top_pad padding)) (bottom_pad padding);
          normalizedX = jdiv (jsub dataX (xMin viewport)) (jsub (xMax viewport) (xMin viewport));
          normalizedY = jdiv (jsub dataY (yMin viewport)) (jsub (yMax viewport) (yMin viewport));
          canvasX = jadd (left_pad padding) (jmul normalizedX plotWidth);
          canvasY = jadd (top_pad padding) (jmul (jsub (Fin 1) normalizedY) plotHeight)
      in (canvasX, canvasY))"

definition canvasToData ::
  "jsnum \<Rightarrow> jsnum \<Rightarrow> ChartViewport \<Rightarrow> jsnum \<Rightarrow> jsnum \<Rightarrow> Padding \<Rightarrow> jsnum \<times> jsnum" where
  "canvasToData canvasX canvasY viewport canvasWidth canvasHeight padding =
     (let plotWidth = jsub (jsub canvasWidth (left_pad padding)) (right_pad padding);
          plotHeight = jsub (jsub canvasHeight (top_pad padding)) (bottom_pad padding);
          normalizedX = jdiv (jsub canvasX (left_pad padding)) plotWidth;
          normalizedY = jsub (Fin 1) (jdiv (jsub canvasY (top_pad padding)) plotHeight);
          dataX = jadd (xMin viewport) (jmul normalizedX (jsub (xMax viewport) (xMin viewport)));
          dataY = jadd (yMin viewport) (jmul normalizedY (jsub (yMax viewport) (yMin viewport)))
      in (dataX, dataY))"

definition finViewport :: "real \<Rightarrow> real \<Rightarrow> real \<Rightarrow> real \<Rightarrow> real \<Rightarrow> ChartViewport" where
  \<comment> \<open>a viewport of finite numbers: xMin, xMax, yMin, yMax, scale\<close>
  "finViewport x0 x1 y0 y1 s =
     \<lparr>xMin = Fin x0, xMax = Fin x1, yMin = Fin y0, yMax = Fin y1, scale = Fin s\<rparr>"

definition finPadding :: "real \<Rightarrow> real \<Rightarrow> real \<Rightarrow> real \<Rightarrow> Padding" where
  \<comment> \<open>a padding of finite numbers: top, right, bottom, left\<close>
  "finPadding t r b l = \<lparr>top_pad = Fin t, right_pad = Fin r, bottom_pad = Fin b, left_pad = Fin l\<rparr>"

section \<open>Render scheduler (the hook \<open>useChartRenderer\<close>)\<close>

text \<open>
  The hook keeps three refs. The browser side of \<open>requestAnimationFrame\<close> is part of the
  state: the queue of requested frames that have neither run nor been cancelled, and the
  handle the next request returns (handles are positive). A call of the draw callback
  either returns or throws; since a callback is stateful, its outcome may depend on how
  many times it has been called before. \<open>drawCalls\<close> counts the invocations.
\<close>

record CanvasContext =
  width :: real
  height :: real
  dpr :: real

datatype draw_result = Returned | Thrown

type_synonym renderFn = "nat \<Rightarrow> CanvasContext \<Rightarrow> draw_result"

record Renderer =
  canvasContextRef :: "CanvasContext option"
  animationFrameRef :: "nat option"
  renderFnRef :: "renderFn option"
  frameQueue :: "nat list"
  nextHandle :: nat
  drawCalls :: nat

text \<open>How a tick ends: it returns, or an exception leaves it uncaught.\<close>

datatype tick = Completed Renderer | Uncaught Renderer

definition newRenderer :: "CanvasContext option \<Rightarrow> Renderer" where
  "newRenderer ctx =
     \<lparr>canvasContextRef = ctx, animationFrameRef = None, renderFnRef = None,
      frameQueue = [], nextHandle = 1, drawCalls = 0\<rparr>"

definition requestAnimationFrame :: "Renderer \<Rightarrow> nat \<times> Renderer" where
  "requestAnimationFrame r =
     (nextHandle r,
      r\<lparr>frameQueue := frameQueue r @ [nextHandle r], nextHandle := nextHandle r + 1\<rparr>)"

definition cancelAnimationFrame :: "nat \<Rightarrow> Renderer \<Rightarrow> Renderer" where
  "cancelAnimationFrame h r = r\<lparr>frameQueue := removeAll h (frameQueue r)\<rparr>"

definition renderLoop :: "Renderer \<Rightarrow> tick" where
  "renderLoop r =
     (case (canvasContextRef r, renderFnRef r) of
        (Some ctx, Some renderFn) \<Rightarrow>
          (case renderFn (drawCalls r) ctx of
             Thrown \<Rightarrow> Uncaught (r\<lparr>drawCalls := drawCalls r + 1\<rparr>)
           | Returned \<Rightarrow>
               (let (h, r') = requestAnimationFrame (r\<lparr>drawCalls := drawCalls r + 1\<rparr>)
                in Completed (r'\<lparr>animationFrameRef := Some h\<rparr>)))
      | _ \<Rightarrow> Completed r)"

definition startRenderLoop :: "renderFn \<Rightarrow> Renderer \<Rightarrow> Renderer" where
  "startRenderLoop renderFn r =
     (let r1 = (case animationFrameRef r of
                  Some h \<Rightarrow> if h \<noteq> 0 then cancelAnimationFrame h r else r
                | None \<Rightarrow> r);
          r2 = r1\<lparr>renderFnRef := Some renderFn\<rparr>;
          (h, r3) = requestAnimationFrame r2
      in r3\<lparr>animationFrameRef := Some h\<rparr>)"

definition stopRenderLoop :: "Renderer \<Rightarrow> Renderer" where
  "stopRenderLoop r =
     (let r1 = (case animationFrameRef r of
                  Some h \<Rightarrow> if h \<noteq> 0 then (cancelAnimationFrame h r)\<lparr>animationFrameRef := None\<rparr> else r
                | None \<Rightarrow> r)
      in r1\<lparr>renderFnRef := None\<rparr>)"

definition nextFrame :: "Renderer \<Rightarrow> tick" where
  \<comment> \<open>the display refreshes: the browser takes the oldest requested frame off the queue
      and calls \<open>renderLoop\<close>; with nothing requested, nothing runs\<close>
  "nextFrame r =
     (case frameQueue r of
        [] \<Rightarrow> Completed r
      | h # rest \<Rightarrow> renderLoop (r\<lparr>frameQueue := rest\<rparr>))"

definition started :: "CanvasContext \<Rightarrow> renderFn \<Rightarrow> Renderer" where
  \<comment> \<open>a chart after mount: the canvas is initialised and \<open>startRenderLoop(renderFn)\<close> has
      been called\<close>
  "started ctx renderFn = startRenderLoop renderFn (newRenderer (Some ctx))"

definition afterTick :: "tick \<Rightarrow> Renderer" where
  \<comment> \<open>the state a tick leaves behind; an uncaught exception is reported by the browser
      and the page lives on\<close>
  "afterTick t = (case t of Completed r \<Rightarrow> r | Uncaught r \<Rightarrow> r)"

fun frames :: "nat \<Rightarrow> Renderer \<Rightarrow> Renderer" where
  \<comment> \<open>\<open>n\<close> display refreshes in a row\<close>
  "frames 0 r = r"
| "frames (Suc n) r = frames n (afterTick (nextFrame r))"

definition ticking :: "CanvasContext \<Rightarrow> renderFn \<Rightarrow> Renderer \<Rightarrow> bool" where
  \<comment> \<open>the loop is alive: context and callback are set and exactly one frame is requested\<close>
  "ticking ctx renderFn r \<longleftrightarrow>
     canvasContextRef r = Some ctx \<and> renderFnRef r = Some renderFn \<and> length (frameQueue r) = 1"

section \<open>Stream buffer: bound, order and eviction\<close>

lemma addData_length: "length (addData newData prev) \<le> 10000"
  by (simp add: addData_def Let_def)

lemma addData_sorted: "sorted (map timestamp (addData newData prev))"
  by (simp add: addData_def Let_def drop_map [symmetric] sorted_wrt_drop)

lemma stream_addData_drop:
  "stream_addData c newData prev =
     drop (length prev + length newData - c) (sort_key timestamp (prev @ newData))"
  by (simp add: stream_addData_def Let_def)

lemma addData_stream: "addData newData prev = stream_addData 10000 newData prev"
  by (simp add: stream_addData_drop addData_def Let_def)

lemma stream_addData_length:
  "length (stream_addData c newData prev) = min c (length prev + length newData)"
  by (simp add: stream_addData_drop)

lemma stream_addData_sorted: "sorted (map timestamp (stream_addData c newData prev))"
  by (simp add: stream_addData_drop drop_map [symmetric] sorted_wrt_drop)

lemma appendAll_snoc: "appendAll (batches @ [b]) = addData b (appendAll batches)"
  by (simp add: appendAll_def)

lemma stream_appendAll_snoc:
  "stream_appendAll c (batches @ [b]) = stream_addData c b (stream_appendAll c batches)"
  by (simp add: stream_appendAll_def)

lemma appendAll_inv:
  "length (appendAll batches) \<le> 10000 \<and> sorted (map timestamp (appendAll batches))"
proof (cases batches rule: rev_cases)
  case Nil
  then show ?thesis by (simp add: appendAll_def)
next
  case (snoc bs b)
  then show ?thesis by (simp add: appendAll_snoc addData_length addData_sorted)
qed

lemma stream_appendAll_inv:
  "length (stream_appendAll c batches) \<le> c \<and>
   sorted (map timestamp (stream_appendAll c batches))"
proof (cases batches rule: rev_cases)
  case Nil
  then show ?thesis by (simp add: stream_appendAll_def)
next
  case (snoc bs b)
  then show ?thesis
    by (simp add: stream_appendAll_snoc stream_addData_length stream_addData_sorted)
qed

text \<open>
  Claim C2. After any sequence of \<open>addData\<close> calls that starts from the empty buffer, the
  provider's buffer holds at most 10000 points and is sorted non-decreasing by
  timestamp. The same holds after a single call from any earlier state, and for the
  stream hook's buffer with its capacity \<open>maxDataPoints\<close> in place of 10000.
\<close>

theorem stream_buffer_bounded_sorted:
  "length (appendAll batches) \<le> 10000 \<and> sorted (map timestamp (appendAll batches)) \<and>
   length (addData newData prev) \<le> 10000 \<and> sorted (map timestamp (addData newData prev)) \<and>
   length (stream_appendAll c batches) \<le> c \<and>
   sorted (map timestamp (stream_appendAll c batches))"
  using appendAll_inv [of batches] stream_appendAll_inv [of c batches]
  by (simp add: addData_length addData_sorted)

lemma sorted_take_le_drop:
  assumes "sorted (map f xs)" "e \<in> set (take n xs)" "r \<in> set (drop n xs)"
  shows "f e \<le> f r"
proof -
  have "sorted (map f (take n xs) @ map f (drop n xs))"
    using assms(1) by (simp add: map_append [symmetric] del: map_append)
  then show ?thesis using assms(2,3) by (auto simp: sorted_append)
qed

lemma filter_drop_suffix: "suffix (filter P (drop n xs)) (filter P xs)"
proof -
  have "filter P xs = filter P (take n xs) @ filter P (drop n xs)"
    by (simp add: filter_append [symmetric] del: filter_append)
  then show ?thesis by (rule suffixI)
qed

lemma stream_addData_evicts_oldest:
  "\<exists>evicted. mset evicted + mset (stream_addData c batch old) = mset old + mset batch \<and>
     (\<forall>e\<in>set evicted. \<forall>r\<in>set (stream_addData c batch old). timestamp e \<le> timestamp r)"
proof -
  let ?m = "sort_key timestamp (old @ batch)"
  let ?n = "length old + length batch - c"
  have "mset (take ?n ?m) + mset (drop ?n ?m) = mset ?m"
    by (simp add: mset_append [symmetric] del: mset_append)
  then have "mset (take ?n ?m) + mset (stream_addData c batch old) = mset old + mset batch"
    by (simp add: stream_addData_drop)
  moreover have "\<forall>e\<in>set (take ?n ?m). \<forall>r\<in>set (stream_addData c batch old).
                   timestamp e \<le> timestamp r"
    using sorted_take_le_drop [of timestamp ?m _ ?n] by (simp add: stream_addData_drop)
  ultimately show ?thesis by blast
qed

lemma stream_addData_stable:
  "suffix (filter (\<lambda>p. timestamp p = t) (stream_addData c batch old))
          (filter (\<lambda>p. timestamp p = t) (old @ batch))"
proof -
  have "suffix (filter (\<lambda>p. timestamp p = t) (stream_addData c batch old))
          (filter (\<lambda>p. timestamp p = t) (sort_key timestamp (old @ batch)))"
    unfolding stream_addData_drop by (rule filter_drop_suffix)
  then show ?thesis by (simp only: sort_key_stable)
qed

lemma stream_addData_scenario:
  "stream_addData 5 [mkPoint 3 v3 c3, mkPoint 4 v4 c4, mkPoint 5 v5 c5, mkPoint 6 v6 c6]
       (stream_addData 5 [mkPoint 1 v1 c1, mkPoint 2 v2 c2] [])
     = [mkPoint 2 v2 c2, mkPoint 3 v3 c3, mkPoint 4 v4 c4, mkPoint 5 v5 c5, mkPoint 6 v6 c6]"
  by (simp add: stream_addData_def mkPoint_def)

text \<open>
  Claim C5. Appending a batch to a buffer of capacity \<open>c\<close> (the stream hook's
  \<open>maxDataPoints\<close>; the provider's buffer is the instance \<open>c = 10000\<close>) gives the last
  \<open>c\<close> entries of the old contents followed by the batch, stably sorted by timestamp:
  a list that is sorted by timestamp and holds \<open>min c (|old| + |batch|)\<close> points; the points left out
  together with the points kept are exactly the old contents and the batch, and every
  point left out is at most as recent as every point kept (the oldest are evicted);
  among points of one timestamp the kept ones are the last to have arrived, in arrival
  order. With capacity 5, appending timestamps 1, 2 and then 3, 4, 5, 6 leaves exactly
  2, 3, 4, 5, 6 in this order.
\<close>

theorem append_keeps_most_recent:
  "stream_addData c batch old
     = drop (length old + length batch - c) (sort_key timestamp (old @ batch)) \<and>
   sorted (map timestamp (stream_addData c batch old)) \<and>
   length (stream_addData c batch old) = min c (length old + length batch) \<and>
   (\<exists>evicted. mset evicted + mset (stream_addData c batch old) = mset old + mset batch \<and>
      (\<forall>e\<in>set evicted. \<forall>r\<in>set (stream_addData c batch old). timestamp e \<le> timestamp r)) \<and>
   (\<forall>t. suffix (filter (\<lambda>p. timestamp p = t) (stream_addData c batch old))
               (filter (\<lambda>p. timestamp p = t) (old @ batch))) \<and>
   addData batch old = stream_addData 10000 batch old \<and>
   stream_addData 5 [mkPoint 3 v3 c3, mkPoint 4 v4 c4, mkPoint 5 v5 c5, mkPoint 6 v6 c6]
       (stream_addData 5 [mkPoint 1 v1 c1, mkPoint 2 v2 c2] [])
     = [mkPoint 2 v2 c2, mkPoint 3 v3 c3, mkPoint 4 v4 c4, mkPoint 5 v5 c5, mkPoint 6 v6 c6]"
  using stream_addData_evicts_oldest [of c batch old] stream_addData_stable [of _ c batch old]
    stream_addData_drop [of c batch old] stream_addData_sorted [of c batch old]
    stream_addData_length [of c batch old] addData_stream [of batch old]
    stream_addData_scenario [of v3 c3 v4 c4 v5 c5 v6 c6 v1 c1 v2 c2]
  by blast

theorem append_keeps_most_recent_witness:
  "length (stream_addData 5 [mkPoint 3 0 ''cpu'', mkPoint 4 0 ''cpu'', mkPoint 5 0 ''cpu'',
                             mkPoint 6 0 ''cpu'']
                            [mkPoint 1 0 ''cpu'', mkPoint 2 0 ''cpu'']) = 5 \<and>
   map timestamp (stream_addData 5 [mkPoint 3 0 ''cpu'', mkPoint 4 0 ''cpu'',
                                    mkPoint 5 0 ''cpu'', mkPoint 6 0 ''cpu'']
                     (stream_addData 5 [mkPoint 1 0 ''cpu'', mkPoint 2 0 ''cpu''] []))
     = [2, 3, 4, 5, 6]"
proof -
  note th = append_keeps_most_recent [of 5
      "[mkPoint 3 0 ''cpu'', mkPoint 4 0 ''cpu'', mkPoint 5 0 ''cpu'', mkPoint 6 0 ''cpu'']"
      "[mkPoint 1 0 ''cpu'', mkPoint 2 0 ''cpu'']" 0 "''cpu''" 0 "''cpu''" 0 "''cpu''"
      0 "''cpu''" 0 "''cpu''" 0 "''cpu''"]
  have "length (stream_addData 5 [mkPoint 3 0 ''cpu'', mkPoint 4 0 ''cpu'', mkPoint 5 0 ''cpu'',
                             mkPoint 6 0 ''cpu'']
                            [mkPoint 1 0 ''cpu'', mkPoint 2 0 ''cpu'']) = 5"
    using th by simp
  moreover have "map timestamp (stream_addData 5 [mkPoint 3 0 ''cpu'', mkPoint 4 0 ''cpu'',
                                    mkPoint 5 0 ''cpu'', mkPoint 6 0 ''cpu'']
                     (stream_addData 5 [mkPoint 1 0 ''cpu'', mkPoint 2 0 ''cpu''] []))
     = [2, 3, 4, 5, 6]"
    using th by (simp add: mkPoint_def)
  ultimately show ?thesis by blast
qed

section \<open>Memory monitor: the growth heuristic\<close>

lemma sampleAll_snoc: "sampleAll (us @ [u]) = sample u (sampleAll us)"
  by (simp add: sampleAll_def)

lemma sample_maxSamples: "maxSamples (sample u mon) = maxSamples mon"
  by (simp add: sample_def Let_def)

lemma sampleAll_maxSamples: "maxSamples (sampleAll us) = 60"
proof (induction us rule: rev_induct)
  case Nil
  then show ?case by (simp add: sampleAll_def newMemoryMonitor_def)
next
  case (snoc u us)
  then show ?case by (simp add: sampleAll_snoc sample_maxSamples)
qed

lemma tl_drop_snoc:
  assumes "n \<le> length us"
  shows "tl (drop n us @ [u]) = drop (Suc n) (us @ [u])"
proof (cases "n = length us")
  case True
  then show ?thesis by simp
next
  case False
  with assms have "n < length us" by simp
  then have "drop n us \<noteq> []" by simp
  then show ?thesis by (simp add: tl_drop drop_Suc)
qed

lemma sampleAll_samples: "samples (sampleAll us) = drop (length us - 60) us"
proof (induction us rule: rev_induct)
  case Nil
  then show ?case by (simp add: sampleAll_def newMemoryMonitor_def)
next
  case (snoc u us)
  show ?case
  proof (cases "length us \<ge> 60")
    case True
    then have "tl (drop (length us - 60) us @ [u]) = drop (Suc (length us - 60)) (us @ [u])"
      by (intro tl_drop_snoc) simp
    moreover have "Suc (length us) - 60 = Suc (length us - 60)"
      using True by simp
    ultimately show ?thesis
      using True snoc
      by (simp add: sampleAll_snoc sample_def Let_def sampleAll_maxSamples del: drop_append)
  next
    case False
    with snoc show ?thesis
      by (simp add: sampleAll_snoc sample_def Let_def sampleAll_maxSamples)
  qed
qed

lemma isGrowing_iff:
  "isGrowing t mon \<longleftrightarrow> 10 \<le> length (samples mon) \<and> t < last (samples mon) - hd (samples mon)"
  by (auto simp: isGrowing_def Let_def)

text \<open>
  Claim C9. \<open>isGrowing(thresholdMB)\<close> is true exactly when the monitor holds at least 10
  samples and the newest retained sample exceeds the oldest retained one by strictly
  more than the threshold. The retained samples are the last 60 readings. For the ten
  readings 50, ..., 50, 65 and threshold 10 it is true; with 58 as the last reading it
  is false; with only nine readings it is false.
\<close>

theorem isGrowing_threshold:
  "(isGrowing t mon \<longleftrightarrow> 10 \<le> length (samples mon) \<and> t < last (samples mon) - hd (samples mon)) \<and>
   samples (sampleAll usages) = drop (length usages - 60) usages \<and>
   isGrowing 10 (sampleAll [50, 50, 50, 50, 50, 50, 50, 50, 50, 65]) \<and>
   \<not> isGrowing 10 (sampleAll [50, 50, 50, 50, 50, 50, 50, 50, 50, 58]) \<and>
   \<not> isGrowing 10 (sampleAll [50, 50, 50, 50, 50, 50, 50, 50, 65])"
proof -
  have a: "isGrowing 10 (sampleAll [50, 50, 50, 50, 50, 50, 50, 50, 50, 65])"
    by (simp add: isGrowing_iff sampleAll_samples)
  have b: "\<not> isGrowing 10 (sampleAll [50, 50, 50, 50, 50, 50, 50, 50, 50, 58])"
    by (simp add: isGrowing_iff sampleAll_samples)
  have c: "\<not> isGrowing 10 (sampleAll [50, 50, 50, 50, 50, 50, 50, 50, 65])"
    by (simp add: isGrowing_iff sampleAll_samples)
  show ?thesis
    using a b c isGrowing_iff [of t mon] sampleAll_samples [of usages] by blast
qed

section \<open>Bucket aggregator: degenerate inputs\<close>

lemma group_into_Nil: "group_into key val [] = []"
  by (simp add: group_into_def)

lemma aggregateBuckets_Nil: "aggregateBuckets b [] = []"
  by (simp add: aggregateBuckets_def aggregated_def group_into_Nil)

lemma aggregateByTimeRange_Nil: "aggregateByTimeRange tr [] = []"
  by (simp add: aggregateByTimeRange_def)

lemma aggregateWithBucketSize_Nil: "aggregateWithBucketSize w [] = []"
  by (simp add: aggregateWithBucketSize_def aggregateBuckets_Nil split: option.split)

lemma aggregateByTimeRange_unmapped:
  "bucketSizeOf tr = None \<Longrightarrow> aggregateByTimeRange tr points = points"
  by (simp add: aggregateByTimeRange_def aggregateWithBucketSize_def)

lemma bucketSizeOf_positive: "bucketSizeOf tr = Some w \<Longrightarrow> 0 < w"
  by (cases tr) (auto simp: bucketSizeOf_def)

lemma aggregateByTimeRange_mapped:
  "bucketSizeOf tr = Some w \<Longrightarrow> aggregateByTimeRange tr points = aggregateBuckets w points"
  by (cases tr) (auto simp: aggregateByTimeRange_def aggregateWithBucketSize_def
      bucketSizeOf_def aggregateBuckets_Nil)

text \<open>
  Claim C10. At the time range \<open>'all'\<close>, and at any time range for which the lookup of
  the bucket size gives nothing, \<open>aggregateByTimeRange\<close> returns the filtered data
  itself; it also returns the filtered data itself when that list is empty, whatever
  the time range.
\<close>

theorem aggregate_all_is_identity:
  "aggregateByTimeRange AllTime points = points \<and>
   (bucketSizeOf tr = None \<longrightarrow> aggregateByTimeRange tr points = points) \<and>
   aggregateWithBucketSize None points = points \<and>
   (points = [] \<longrightarrow> aggregateByTimeRange tr points = points) \<and>
   aggregateByTimeRange AllTime (filteredData filterConfig data) = filteredData filterConfig data"
  by (simp add: aggregateByTimeRange_unmapped aggregateByTimeRange_Nil)
     (simp add: aggregateByTimeRange_def aggregateWithBucketSize_def)

theorem aggregate_all_is_identity_witness:
  "bucketSizeOf AllTime = None \<and>
   aggregateByTimeRange AllTime [mkPoint 0 1 ''cpu'', mkPoint 500 3 ''cpu'']
     = [mkPoint 0 1 ''cpu'', mkPoint 500 3 ''cpu''] \<and>
   aggregateByTimeRange Min1 [] = []"
proof -
  have a: "bucketSizeOf AllTime = None" by (simp add: bucketSizeOf_def)
  have "aggregateByTimeRange AllTime [mkPoint 0 1 ''cpu'', mkPoint 500 3 ''cpu'']
     = [mkPoint 0 1 ''cpu'', mkPoint 500 3 ''cpu'']"
    using a aggregate_all_is_identity [of "[mkPoint 0 1 ''cpu'', mkPoint 500 3 ''cpu'']" AllTime]
    by blast
  moreover have "aggregateByTimeRange Min1 [] = []"
    using aggregate_all_is_identity [of "[]" Min1] by blast
  ultimately show ?thesis using a by blast
qed



section \<open>Render scheduler: one tick\<close>

lemma renderLoop_returned:
  assumes "canvasContextRef r = Some ctx" "renderFnRef r = Some renderFn"
    "renderFn (drawCalls r) ctx = Returned"
  shows "renderLoop r =
           Completed (r\<lparr>animationFrameRef := Some (nextHandle r),
                         frameQueue := frameQueue r @ [nextHandle r],
                         nextHandle := nextHandle r + 1,
                         drawCalls := drawCalls r + 1\<rparr>)"
  using assms by (simp add: renderLoop_def requestAnimationFrame_def)

lemma renderLoop_thrown:
  assumes "canvasContextRef r = Some ctx" "renderFnRef r = Some renderFn"
    "renderFn (drawCalls r) ctx = Thrown"
  shows "renderLoop r = Uncaught (r\<lparr>drawCalls := drawCalls r + 1\<rparr>)"
  using assms by (simp add: renderLoop_def)

lemma renderLoop_idle:
  assumes "canvasContextRef r = None \<or> renderFnRef r = None"
  shows "renderLoop r = Completed r"
  using assms by (auto simp: renderLoop_def split: option.splits)

lemma started_eq:
  "started ctx f = \<lparr>canvasContextRef = Some ctx, animationFrameRef = Some 1,
                     renderFnRef = Some f, frameQueue = [1], nextHandle = 2, drawCalls = 0\<rparr>"
  by (simp add: started_def startRenderLoop_def newRenderer_def requestAnimationFrame_def)

lemma started_ticking: "ticking ctx f (started ctx f)" "drawCalls (started ctx f) = 0"
  by (simp_all add: ticking_def started_eq)

lemma nextFrame_ticking:
  assumes "ticking ctx f r"
  shows "nextFrame r = renderLoop (r\<lparr>frameQueue := []\<rparr>)"
proof -
  from assms obtain h where "frameQueue r = [h]"
    by (cases "frameQueue r") (auto simp: ticking_def)
  then show ?thesis by (simp add: nextFrame_def)
qed

lemma tick_returned:
  assumes "ticking ctx f r" "f (drawCalls r) ctx = Returned"
  shows "ticking ctx f (afterTick (nextFrame r)) \<and>
         drawCalls (afterTick (nextFrame r)) = drawCalls r + 1"
proof -
  have "renderLoop (r\<lparr>frameQueue := []\<rparr>) =
          Completed (r\<lparr>frameQueue := []\<rparr>\<lparr>animationFrameRef := Some (nextHandle r),
                         frameQueue := [] @ [nextHandle r],
                         nextHandle := nextHandle r + 1,
                         drawCalls := drawCalls r + 1\<rparr>)"
    using assms renderLoop_returned [of "r\<lparr>frameQueue := []\<rparr>" ctx f]
    by (simp add: ticking_def)
  then show ?thesis
    using assms(1) by (simp add: nextFrame_ticking [OF assms(1)] afterTick_def ticking_def)
qed

lemma tick_thrown:
  assumes "ticking ctx f r" "f (drawCalls r) ctx = Thrown"
  shows "frameQueue (afterTick (nextFrame r)) = [] \<and>
         drawCalls (afterTick (nextFrame r)) = drawCalls r + 1"
proof -
  have "renderLoop (r\<lparr>frameQueue := []\<rparr>) =
          Uncaught (r\<lparr>frameQueue := []\<rparr>\<lparr>drawCalls := drawCalls r + 1\<rparr>)"
    using assms renderLoop_thrown [of "r\<lparr>frameQueue := []\<rparr>" ctx f]
    by (simp add: ticking_def)
  then show ?thesis
    by (simp add: nextFrame_ticking [OF assms(1)] afterTick_def)
qed

lemma frames_idle: "frameQueue r = [] \<Longrightarrow> frames n r = r"
  by (induction n) (simp_all add: nextFrame_def afterTick_def)

lemma frames_add: "frames (m + n) r = frames n (frames m r)"
  by (induction m arbitrary: r) simp_all

lemma frames_returned:
  assumes "ticking ctx f r" "\<And>k. k < n \<Longrightarrow> f (drawCalls r + k) ctx = Returned"
  shows "ticking ctx f (frames n r) \<and> drawCalls (frames n r) = drawCalls r + n"
  using assms
proof (induction n arbitrary: r)
  case 0
  then show ?case by simp
next
  case (Suc n)
  let ?r = "afterTick (nextFrame r)"
  have "f (drawCalls r) ctx = Returned" using Suc.prems(2) [of 0] by simp
  then have step: "ticking ctx f ?r" "drawCalls ?r = drawCalls r + 1"
    using tick_returned [OF Suc.prems(1)] by simp_all
  have "\<And>k. k < n \<Longrightarrow> f (drawCalls ?r + k) ctx = Returned"
    using Suc.prems(2) step(2) by (metis Suc_less_eq add_Suc_right add_Suc_shift Suc_eq_plus1)
  then have "ticking ctx f (frames n ?r) \<and> drawCalls (frames n ?r) = drawCalls ?r + n"
    using Suc.IH [OF step(1)] by blast
  then show ?case by (simp add: step(2))
qed

lemma frames_thrown:
  assumes "ticking ctx f r" "\<And>k. k < k0 \<Longrightarrow> f (drawCalls r + k) ctx = Returned"
    "f (drawCalls r + k0) ctx = Thrown" "k0 < n"
  shows "frameQueue (frames n r) = [] \<and> drawCalls (frames n r) = drawCalls r + k0 + 1"
proof -
  let ?r = "frames k0 r"
  have before: "ticking ctx f ?r" "drawCalls ?r = drawCalls r + k0"
    using frames_returned [OF assms(1), of k0] assms(2) by simp_all
  then have "f (drawCalls ?r) ctx = Thrown" using assms(3) by simp
  then have halt: "frameQueue (afterTick (nextFrame ?r)) = []"
    "drawCalls (afterTick (nextFrame ?r)) = drawCalls ?r + 1"
    using tick_thrown [OF before(1)] by simp_all
  obtain m where n: "n = k0 + Suc m" using assms(4) less_iff_Suc_add by auto
  have "frames n r = frames (Suc m) ?r" by (simp only: n frames_add)
  also have "\<dots> = frames m (afterTick (nextFrame ?r))" by simp
  also have "\<dots> = afterTick (nextFrame ?r)" using halt(1) by (rule frames_idle)
  finally show ?thesis using halt before(2) by simp
qed

text \<open>
  Claim C6, as the code has it. On a tick at which the canvas context and the draw
  callback are both set, the scheduler calls the draw callback exactly once. When the
  call returns, the tick requests exactly one next frame and stores its handle. When
  the call throws, the exception leaves the tick uncaught and no frame is requested:
  the queue of requested frames is as it was. With no context or no callback the tick
  draws nothing and requests nothing. So a started loop whose callback never throws has
  drawn \<open>n\<close> times after \<open>n\<close> display refreshes and has one frame requested; a loop
  whose callback throws at its call number \<open>k0\<close> (counted from 0) has drawn \<open>k0 + 1\<close>
  times after any larger number of refreshes and has no frame requested: it has
  stopped.
\<close>

theorem renderLoop_tick:
  "(canvasContextRef r = Some ctx \<and> renderFnRef r = Some renderFn \<and>
      renderFn (drawCalls r) ctx = Returned \<longrightarrow>
      (\<exists>r'. renderLoop r = Completed r' \<and> drawCalls r' = drawCalls r + 1 \<and>
            frameQueue r' = frameQueue r @ [nextHandle r] \<and>
            animationFrameRef r' = Some (nextHandle r))) \<and>
   (canvasContextRef r = Some ctx \<and> renderFnRef r = Some renderFn \<and>
      renderFn (drawCalls r) ctx = Thrown \<longrightarrow>
      (\<exists>r'. renderLoop r = Uncaught r' \<and> drawCalls r' = drawCalls r + 1 \<and>
            frameQueue r' = frameQueue r \<and> animationFrameRef r' = animationFrameRef r)) \<and>
   (canvasContextRef r = None \<or> renderFnRef r = None \<longrightarrow> renderLoop r = Completed r) \<and>
   ((\<forall>k. renderFn k ctx = Returned) \<longrightarrow>
      drawCalls (frames n (started ctx renderFn)) = n \<and>
      length (frameQueue (frames n (started ctx renderFn))) = 1) \<and>
   ((\<forall>k<k0. renderFn k ctx = Returned) \<and> renderFn k0 ctx = Thrown \<and> k0 < n \<longrightarrow>
      drawCalls (frames n (started ctx renderFn)) = k0 + 1 \<and>
      frameQueue (frames n (started ctx renderFn)) = [])"
proof (intro conjI impI)
  assume "canvasContextRef r = Some ctx \<and> renderFnRef r = Some renderFn \<and>
      renderFn (drawCalls r) ctx = Returned"
  then have "renderLoop r =
           Completed (r\<lparr>animationFrameRef := Some (nextHandle r),
                         frameQueue := frameQueue r @ [nextHandle r],
                         nextHandle := nextHandle r + 1,
                         drawCalls := drawCalls r + 1\<rparr>)"
    using renderLoop_returned [of r ctx renderFn] by blast
  then show "\<exists>r'. renderLoop r = Completed r' \<and> drawCalls r' = drawCalls r + 1 \<and>
            frameQueue r' = frameQueue r @ [nextHandle r] \<and>
            animationFrameRef r' = Some (nextHandle r)"
    by simp
next
  assume "canvasContextRef r = Some ctx \<and> renderFnRef r = Some renderFn \<and>
      renderFn (drawCalls r) ctx = Thrown"
  then have "renderLoop r = Uncaught (r\<lparr>drawCalls := drawCalls r + 1\<rparr>)"
    using renderLoop_thrown [of r ctx renderFn] by blast
  then show "\<exists>r'. renderLoop r = Uncaught r' \<and> drawCalls r' = drawCalls r + 1 \<and>
            frameQueue r' = frameQueue r \<and> animationFrameRef r' = animationFrameRef r"
    by simp
next
  assume "canvasContextRef r = None \<or> renderFnRef r = None"
  then show "renderLoop r = Completed r" by (rule renderLoop_idle)
next
  assume a: "\<forall>k. renderFn k ctx = Returned"
  have "ticking ctx renderFn (frames n (started ctx renderFn)) \<and>
        drawCalls (frames n (started ctx renderFn)) = drawCalls (started ctx renderFn) + n"
    using a by (intro frames_returned started_ticking) simp
  then show "drawCalls (frames n (started ctx renderFn)) = n"
    and "length (frameQueue (frames n (started ctx renderFn))) = 1"
    by (simp_all add: started_ticking ticking_def)
next
  assume a: "(\<forall>k<k0. renderFn k ctx = Returned) \<and> renderFn k0 ctx = Thrown \<and> k0 < n"
  have "frameQueue (frames n (started ctx renderFn)) = [] \<and>
        drawCalls (frames n (started ctx renderFn)) = drawCalls (started ctx renderFn) + k0 + 1"
    using a by (intro frames_thrown [of ctx renderFn]) (simp_all add: started_ticking)
  then show "drawCalls (frames n (started ctx renderFn)) = k0 + 1"
    and "frameQueue (frames n (started ctx renderFn)) = []"
    by (simp_all add: started_ticking)
qed

theorem renderLoop_tick_witness:
  "drawCalls (frames 3 (started \<lparr>width = 800, height = 400, dpr = 1\<rparr> (\<lambda>n ctx. Returned))) = 3 \<and>
   length (frameQueue (frames 3 (started \<lparr>width = 800, height = 400, dpr = 1\<rparr>
                                     (\<lambda>n ctx. Returned)))) = 1 \<and>
   drawCalls (frames 3 (started \<lparr>width = 800, height = 400, dpr = 1\<rparr>
                          (\<lambda>n ctx. if n = 1 then Thrown else Returned))) = 2 \<and>
   frameQueue (frames 3 (started \<lparr>width = 800, height = 400, dpr = 1\<rparr>
                           (\<lambda>n ctx. if n = 1 then Thrown else Returned))) = []"
proof -
  let ?ctx = "\<lparr>width = 800, height = 400, dpr = 1\<rparr>"
  have a: "drawCalls (frames 3 (started ?ctx (\<lambda>n ctx. Returned))) = 3 \<and>
           length (frameQueue (frames 3 (started ?ctx (\<lambda>n ctx. Returned)))) = 1"
    using renderLoop_tick [of _ ?ctx "\<lambda>n ctx. Returned" 3] by simp
  have "(\<forall>k<1. (if k = (1::nat) then Thrown else Returned) = Returned) \<and>
        (if (1::nat) = 1 then Thrown else Returned) = Thrown \<and> (1::nat) < 3"
    by simp
  then have b: "drawCalls (frames 3 (started ?ctx (\<lambda>n ctx. if n = 1 then Thrown else Returned)))
             = 2 \<and>
           frameQueue (frames 3 (started ?ctx (\<lambda>n ctx. if n = 1 then Thrown else Returned))) = []"
    using renderLoop_tick [of _ ?ctx "\<lambda>n ctx. if n = 1 then Thrown else Returned" 3 1]
    by simp
  show ?thesis using a b by blast
qed

text \<open>
  A callback that throws at its first call: the tick ends with the exception uncaught
  and with no frame requested, and the next display refresh runs nothing.
\<close>

theorem renderLoop_throw_counterexample:
  "nextFrame (started \<lparr>width = 800, height = 400, dpr = 1\<rparr> (\<lambda>n ctx. Thrown)) =
     Uncaught \<lparr>canvasContextRef = Some \<lparr>width = 800, height = 400, dpr = 1\<rparr>,
               animationFrameRef = Some 1, renderFnRef = Some (\<lambda>n ctx. Thrown),
               frameQueue = [], nextHandle = 2, drawCalls = 1\<rparr> \<and>
   nextFrame \<lparr>canvasContextRef = Some \<lparr>width = 800, height = 400, dpr = 1\<rparr>,
               animationFrameRef = Some 1, renderFnRef = Some (\<lambda>n ctx. Thrown),
               frameQueue = [], nextHandle = 2, drawCalls = 1\<rparr> =
     Completed \<lparr>canvasContextRef = Some \<lparr>width = 800, height = 400, dpr = 1\<rparr>,
               animationFrameRef = Some 1, renderFnRef = Some (\<lambda>n ctx. Thrown),
               frameQueue = [], nextHandle = 2, drawCalls = 1\<rparr>"
  by (simp add: nextFrame_def started_eq renderLoop_def)

section \<open>Bucket aggregator: grouping\<close>

lemma map_push_keys:
  "map fst (map_push k v m) = (if k \<in> set (map fst m) then map fst m else map fst m @ [k])"
proof (induction m)
  case Nil
  then show ?case by simp
next
  case (Cons e m)
  obtain k' vs where e: "e = (k', vs)" by (cases e)
  show ?case
  proof (cases "k' = k")
    case True
    then show ?thesis by (simp add: e)
  next
    case False
    then show ?thesis using Cons by (simp add: e)
  qed
qed

lemma map_push_distinct:
  "distinct (map fst m) \<Longrightarrow> distinct (map fst (map_push k v m))"
  by (simp add: map_push_keys)

lemma map_of_map_push:
  "map_of (map_push k v m) k' =
     (if k' = k then Some (case map_of m k of None \<Rightarrow> [v] | Some vs \<Rightarrow> vs @ [v])
      else map_of m k')"
  by (induction m) auto

lemma map_push_sizes:
  "sum_list (map (\<lambda>e. length (snd e)) (map_push k v m))
     = Suc (sum_list (map (\<lambda>e. length (snd e)) m))"
  by (induction m) auto

lemma group_into_snoc:
  "group_into key val (xs @ [x]) = map_push (key x) (val x) (group_into key val xs)"
  by (simp add: group_into_def)

lemma group_into_distinct: "distinct (map fst (group_into key val xs))"
  by (induction xs rule: rev_induct)
     (simp_all add: group_into_Nil group_into_snoc map_push_distinct)

lemma group_into_sizes:
  "sum_list (map (\<lambda>e. length (snd e)) (group_into key val xs)) = length xs"
  by (induction xs rule: rev_induct)
     (simp_all add: group_into_Nil group_into_snoc map_push_sizes)

lemma group_into_map_of:
  "map_of (group_into key val xs) k =
     (if k \<in> key ` set xs then Some (map val (filter (\<lambda>x. key x = k) xs)) else None)"
proof (induction xs rule: rev_induct)
  case Nil
  then show ?case by (simp add: group_into_Nil)
next
  case (snoc x xs)
  have "key x \<notin> key ` set xs \<Longrightarrow> filter (\<lambda>y. key y = key x) xs = []"
    unfolding filter_empty_conv by (metis imageI)
  with snoc show ?case
    by (auto simp: group_into_snoc map_of_map_push)
qed

lemma group_into_mem:
  "(k, vs) \<in> set (group_into key val xs) \<longleftrightarrow>
     k \<in> key ` set xs \<and> vs = map val (filter (\<lambda>x. key x = k) xs)"
proof -
  have "(k, vs) \<in> set (group_into key val xs) \<longleftrightarrow> map_of (group_into key val xs) k = Some vs"
    using group_into_distinct [of key val xs] by simp
  then show ?thesis by (auto simp: group_into_map_of)
qed

lemma aggregatedPoint_fields:
  "timestamp (aggregatedPoint ts (cat, vals)) = ts"
  "category (aggregatedPoint ts (cat, vals)) = cat"
  "pointCount (aggregatedPoint ts (cat, vals)) = Some (real (length vals))"
  by (simp_all add: aggregatedPoint_def pointCount_def)

lemma aggregated_mem:
  "q \<in> set (aggregated b points) \<longleftrightarrow>
     (\<exists>p\<in>set points. q = aggregatedPoint (bucketKey b p)
        (category p, map value (filter (\<lambda>x. bucketKey b x = bucketKey b p \<and> category x = category p) points)))"
  (is "?L \<longleftrightarrow> ?R")
proof
  assume ?L
  then obtain ts pts cat vals where
    m1: "(ts, pts) \<in> set (group_into (bucketKey b) (\<lambda>point. point) points)" and
    m2: "(cat, vals) \<in> set (group_into category value pts)" and
    q: "q = aggregatedPoint ts (cat, vals)"
    by (auto simp: aggregated_def aggregateBucket_def Let_def)
  from m1 have pts: "pts = filter (\<lambda>x. bucketKey b x = ts) points"
    by (simp add: group_into_mem)
  from m2 obtain p where p: "p \<in> set pts" "cat = category p"
    and vals: "vals = map value (filter (\<lambda>x. category x = cat) pts)"
    by (auto simp: group_into_mem)
  from p pts have p': "p \<in> set points" "bucketKey b p = ts" by simp_all
  have "vals = map value (filter (\<lambda>x. bucketKey b x = bucketKey b p \<and> category x = category p) points)"
    by (simp add: vals pts p p')
  with q p p' show ?R by blast
next
  assume ?R
  then obtain p where p: "p \<in> set points" and
    q: "q = aggregatedPoint (bucketKey b p)
        (category p, map value (filter (\<lambda>x. bucketKey b x = bucketKey b p \<and> category x = category p) points))"
    by blast
  let ?pts = "filter (\<lambda>x. bucketKey b x = bucketKey b p) points"
  have m1: "(bucketKey b p, ?pts) \<in> set (group_into (bucketKey b) (\<lambda>point. point) points)"
    using p by (simp add: group_into_mem)
  have "p \<in> set ?pts" using p by simp
  then have m2: "(category p, map value (filter (\<lambda>x. category x = category p) ?pts))
                  \<in> set (group_into category value ?pts)"
    unfolding group_into_mem by blast
  have "aggregatedPoint (bucketKey b p) (category p, map value (filter (\<lambda>x. category x = category p) ?pts))
          \<in> set (aggregateBucket (bucketKey b p, ?pts))"
    using m2 unfolding aggregateBucket_def by (simp only: prod.case set_map) (rule imageI)
  moreover have "map value (filter (\<lambda>x. category x = category p) ?pts)
      = map value (filter (\<lambda>x. bucketKey b x = bucketKey b p \<and> category x = category p) points)"
    by simp
  ultimately have "q \<in> set (aggregateBucket (bucketKey b p, ?pts))"
    using q by simp
  then show ?L using m1 unfolding aggregated_def Let_def by (simp only: set_concat set_map) blast
qed

lemma set_aggregateBuckets: "set (aggregateBuckets b points) = set (aggregated b points)"
  by (simp add: aggregateBuckets_def)

lemma aggregateBuckets_mem:
  assumes "q \<in> set (aggregateBuckets b points)"
  shows "pointCount q = Some (real (length (filter (sameBucket b q) points))) \<and>
         (\<exists>p\<in>set points. sameBucket b q p)"
proof -
  from assms obtain p where p: "p \<in> set points" and
    q: "q = aggregatedPoint (bucketKey b p)
        (category p, map value (filter (\<lambda>x. bucketKey b x = bucketKey b p \<and> category x = category p) points))"
    unfolding set_aggregateBuckets aggregated_mem by blast
  have f: "timestamp q = bucketKey b p" "category q = category p"
    by (simp_all add: q aggregatedPoint_fields)
  then have sb: "sameBucket b q = (\<lambda>x. bucketKey b x = bucketKey b p \<and> category x = category p)"
    by (simp add: sameBucket_def fun_eq_iff)
  have "pointCount q = Some (real (length (filter (sameBucket b q) points)))"
    by (simp add: sb) (simp add: q aggregatedPoint_fields)
  moreover have "sameBucket b q p" by (simp add: sb)
  ultimately show ?thesis using p by blast
qed

lemma aggregateBuckets_covers:
  assumes "p \<in> set points"
  shows "\<exists>q\<in>set (aggregateBuckets b points). sameBucket b q p"
proof -
  let ?q = "aggregatedPoint (bucketKey b p)
        (category p, map value (filter (\<lambda>x. bucketKey b x = bucketKey b p \<and> category x = category p) points))"
  have "?q \<in> set (aggregateBuckets b points)"
    unfolding set_aggregateBuckets aggregated_mem using assms by blast
  moreover have "sameBucket b ?q p"
    by (simp add: sameBucket_def aggregatedPoint_fields)
  ultimately show ?thesis by blast
qed

lemma bucketKey_window:
  assumes "0 < b"
  shows "bucketKey b p \<le> timestamp p \<and> timestamp p < bucketKey b p + b"
proof -
  let ?x = "timestamp p / b"
  have xb: "?x * b = timestamp p" using assms by simp
  have "of_int \<lfloor>?x\<rfloor> \<le> ?x" by linarith
  then have "of_int \<lfloor>?x\<rfloor> * b \<le> ?x * b"
    using assms by (intro mult_right_mono) simp_all
  then have lo: "of_int \<lfloor>?x\<rfloor> * b \<le> timestamp p" by (simp only: xb)
  have "?x < of_int \<lfloor>?x\<rfloor> + 1" by linarith
  then have "?x * b < (of_int \<lfloor>?x\<rfloor> + 1) * b"
    using assms by (intro mult_strict_right_mono) simp_all
  then have hi: "timestamp p < (of_int \<lfloor>?x\<rfloor> + 1) * b" by (simp only: xb)
  have "(of_int \<lfloor>?x\<rfloor> + 1) * b = of_int \<lfloor>?x\<rfloor> * b + b" by (simp add: algebra_simps)
  with lo hi show ?thesis by (simp add: bucketKey_def)
qed

lemma aggregateBuckets_sorted: "sorted (map timestamp (aggregateBuckets b points))"
  by (simp add: aggregateBuckets_def)

lemma distinct_concat_keyed:
  assumes "distinct (map fst m)" "\<And>e. e \<in> set m \<Longrightarrow> distinct (h e)"
  shows "distinct (concat (map (\<lambda>e. map (Pair (fst e)) (h e)) m))"
  using assms
proof (induction m)
  case Nil
  then show ?case by simp
next
  case (Cons e m)
  have "distinct (map (Pair (fst e)) (h e))"
    using Cons.prems(2) [of e] by (simp add: distinct_map inj_on_def)
  moreover have "distinct (concat (map (\<lambda>e. map (Pair (fst e)) (h e)) m))"
    using Cons by simp
  moreover have "set (map (Pair (fst e)) (h e)) \<inter> set (concat (map (\<lambda>e. map (Pair (fst e)) (h e)) m)) = {}"
    using Cons.prems(1) by auto
  ultimately show ?case by simp
qed

lemma bucket_pairs:
  "map (\<lambda>q. (timestamp q, category q)) (aggregateBucket e)
     = map (Pair (fst e)) (map fst (group_into category value (snd e)))"
  by (cases e) (simp add: aggregateBucket_def aggregatedPoint_def split_def comp_def)

lemma map_concat_map: "map g (concat (map h m)) = concat (map (\<lambda>e. map g (h e)) m)"
  by (induction m) simp_all

lemma aggregated_distinct:
  "distinct (map (\<lambda>q. (timestamp q, category q)) (aggregated b points))"
proof -
  let ?m = "group_into (bucketKey b) (\<lambda>point. point) points"
  have "map (\<lambda>q. (timestamp q, category q)) (aggregated b points)
        = concat (map (\<lambda>e. map (Pair (fst e)) (map fst (group_into category value (snd e)))) ?m)"
    by (simp only: aggregated_def Let_def map_concat_map bucket_pairs)
  moreover have "distinct (concat (map (\<lambda>e. map (Pair (fst e)) (map fst (group_into category value (snd e)))) ?m))"
    by (rule distinct_concat_keyed) (rule group_into_distinct)+
  ultimately show ?thesis by (simp only:)
qed

lemma aggregateBuckets_distinct:
  "distinct (map (\<lambda>q. (timestamp q, category q)) (aggregateBuckets b points))"
proof -
  have "mset (map (\<lambda>q. (timestamp q, category q)) (aggregateBuckets b points))
        = mset (map (\<lambda>q. (timestamp q, category q)) (aggregated b points))"
    by (simp add: aggregateBuckets_def)
  from mset_eq_imp_distinct_iff [OF this] show ?thesis
    using aggregated_distinct [of b points] by blast
qed

lemma sum_list_sort_key:
  fixes F :: "'a \<Rightarrow> nat"
  shows "sum_list (map F (sort_key f xs)) = sum_list (map F xs)"
proof -
  have "sum_mset (mset (map F (sort_key f xs))) = sum_mset (mset (map F xs))"
    by simp
  then show ?thesis by (simp only: sum_mset_sum_list)
qed

lemma sum_list_map_concat:
  fixes F :: "'a \<Rightarrow> nat"
  shows "sum_list (map F (concat (map g m))) = sum_list (map (\<lambda>e. sum_list (map F (g e))) m)"
  by (induction m) simp_all

lemma bucket_counts:
  assumes "e \<in> set (group_into (bucketKey b) (\<lambda>point. point) points)"
  shows "sum_list (map (\<lambda>q. length (filter (sameBucket b q) points)) (aggregateBucket e))
           = length (snd e)"
proof -
  obtain ts pts where e: "e = (ts, pts)" by (cases e)
  with assms have pts: "pts = filter (\<lambda>x. bucketKey b x = ts) points"
    by (simp add: group_into_mem)
  have "\<And>g. g \<in> set (group_into category value pts) \<Longrightarrow>
          length (filter (sameBucket b (aggregatedPoint ts g)) points) = length (snd g)"
  proof -
    fix g assume g: "g \<in> set (group_into category value pts)"
    obtain cat vals where gv: "g = (cat, vals)" by (cases g)
    with g have "vals = map value (filter (\<lambda>x. category x = cat) pts)"
      by (simp add: group_into_mem)
    then have "length vals = length (filter (\<lambda>x. bucketKey b x = ts \<and> category x = cat) points)"
      by (simp add: pts)
    moreover have "sameBucket b (aggregatedPoint ts g) = (\<lambda>x. bucketKey b x = ts \<and> category x = cat)"
      by (simp add: gv sameBucket_def aggregatedPoint_fields fun_eq_iff)
    ultimately show "length (filter (sameBucket b (aggregatedPoint ts g)) points) = length (snd g)"
      by (simp add: gv)
  qed
  then have "map (\<lambda>g. length (filter (sameBucket b (aggregatedPoint ts g)) points))
                (group_into category value pts)
             = map (\<lambda>g. length (snd g)) (group_into category value pts)"
    by (intro map_cong) simp_all
  moreover have "map (\<lambda>q. length (filter (sameBucket b q) points)) (aggregateBucket e)
             = map (\<lambda>g. length (filter (sameBucket b (aggregatedPoint ts g)) points))
                (group_into category value pts)"
    by (simp add: e aggregateBucket_def comp_def)
  ultimately have "sum_list (map (\<lambda>q. length (filter (sameBucket b q) points)) (aggregateBucket e))
             = sum_list (map (\<lambda>g. length (snd g)) (group_into category value pts))"
    by (simp only:)
  then show ?thesis by (simp only: group_into_sizes e snd_conv)
qed

lemma aggregateBuckets_counts:
  "sum_list (map (\<lambda>q. length (filter (sameBucket b q) points)) (aggregateBuckets b points))
     = length points"
proof -
  let ?F = "\<lambda>q. length (filter (sameBucket b q) points)"
  let ?m = "group_into (bucketKey b) (\<lambda>point. point) points"
  have "sum_list (map ?F (aggregated b points))
          = sum_list (map (\<lambda>e. sum_list (map ?F (aggregateBucket e))) ?m)"
    by (simp only: aggregated_def Let_def sum_list_map_concat)
  also have "map (\<lambda>e. sum_list (map ?F (aggregateBucket e))) ?m = map (\<lambda>e. length (snd e)) ?m"
    by (intro map_cong refl bucket_counts)
  also have "sum_list (map (\<lambda>e. length (snd e)) ?m) = length points"
    by (rule group_into_sizes)
  finally show ?thesis by (simp only: aggregateBuckets_def sum_list_sort_key)
qed

section \<open>Bucket aggregator: the buckets partition the input\<close>

lemma aggregated_scenario:
  "aggregated 1000 [mkPoint 0 v0 c, mkPoint 500 v1 c, mkPoint 999 v2 c, mkPoint 1000 v3 c]
     = [aggregatedPoint 0 (c, [v0, v1, v2]), aggregatedPoint 1000 (c, [v3])]"
  by (simp add: aggregated_def group_into_def aggregateBucket_def bucketKey_def mkPoint_def)

lemma aggregateBuckets_keys:
  "timestamp ` set (aggregateBuckets b points) = bucketKey b ` set points"
proof (intro set_eqI iffI)
  fix k assume "k \<in> timestamp ` set (aggregateBuckets b points)"
  then obtain q where q: "q \<in> set (aggregateBuckets b points)" "k = timestamp q" by blast
  from aggregateBuckets_mem [OF q(1)] obtain p where "p \<in> set points" "sameBucket b q p"
    by blast
  then show "k \<in> bucketKey b ` set points" using q(2) by (metis sameBucket_def imageI)
next
  fix k assume "k \<in> bucketKey b ` set points"
  then obtain p where p: "p \<in> set points" "k = bucketKey b p" by blast
  from aggregateBuckets_covers [OF p(1), of b] obtain q
    where "q \<in> set (aggregateBuckets b points)" "sameBucket b q p" by blast
  then show "k \<in> timestamp ` set (aggregateBuckets b points)"
    using p(2) by (metis sameBucket_def imageI)
qed

lemma aggregateBuckets_scenario_keys:
  "timestamp ` set (aggregateBuckets 1000
      [mkPoint 0 v0 c0, mkPoint 500 v1 c1, mkPoint 999 v2 c2, mkPoint 1000 v3 c3]) = {0, 1000}"
  by (simp add: aggregateBuckets_keys bucketKey_def mkPoint_def)

lemma aggregateBuckets_scenario:
  "map (\<lambda>q. (timestamp q, category q, pointCount q))
       (aggregateBuckets 1000 [mkPoint 0 v0 c, mkPoint 500 v1 c, mkPoint 999 v2 c, mkPoint 1000 v3 c])
     = [(0, c, Some 3), (1000, c, Some 1)]"
proof -
  have "aggregateBuckets 1000 [mkPoint 0 v0 c, mkPoint 500 v1 c, mkPoint 999 v2 c, mkPoint 1000 v3 c]
          = [aggregatedPoint 0 (c, [v0, v1, v2]), aggregatedPoint 1000 (c, [v3])]"
    by (simp add: aggregateBuckets_def aggregated_scenario aggregatedPoint_fields)
  then show ?thesis by (simp add: aggregatedPoint_fields)
qed

text \<open>
  Claim C1. For every bucket width \<open>b > 0\<close> and every list of points, the aggregator
  puts each point into the bucket with key \<open>floor(timestamp / b) * b\<close>, which lies at most
  \<open>b\<close> below the timestamp, and within the bucket into its category. Every emitted
  point stands for one (key, category) pair that some input point has, and its count is
  the number of input points with that key and category; every input point is counted
  by an emitted point; no (key, category) pair is emitted twice, and the counts add up to
  the number of input points. The output is sorted by bucket key, and at the time
  ranges that have a bucket width this is what \<open>aggregateByTimeRange\<close> returns. Four
  points of one category with timestamps 0, 500, 999 and 1000 give, at width 1000,
  exactly two buckets: key 0 with count 3 and key 1000 with count 1; whatever their
  categories, the bucket keys emitted for them are 0 and 1000.
\<close>

theorem aggregateBuckets_partition:
  assumes "0 < b"
  shows "(\<forall>p\<in>set points.
            bucketKey b p = of_int \<lfloor>timestamp p / b\<rfloor> * b \<and>
            bucketKey b p \<le> timestamp p \<and> timestamp p < bucketKey b p + b \<and>
            (\<exists>q\<in>set (aggregateBuckets b points). sameBucket b q p)) \<and>
         (\<forall>q\<in>set (aggregateBuckets b points).
            pointCount q = Some (real (length (filter (sameBucket b q) points))) \<and>
            (\<exists>p\<in>set points. sameBucket b q p)) \<and>
         distinct (map (\<lambda>q. (timestamp q, category q)) (aggregateBuckets b points)) \<and>
         sum_list (map (\<lambda>q. length (filter (sameBucket b q) points)) (aggregateBuckets b points))
           = length points \<and>
         sorted (map timestamp (aggregateBuckets b points)) \<and>
         (bucketSizeOf tr = Some b \<longrightarrow> aggregateByTimeRange tr points = aggregateBuckets b points) \<and>
         map (\<lambda>q. (timestamp q, category q, pointCount q))
           (aggregateBuckets 1000
              [mkPoint 0 v0 c, mkPoint 500 v1 c, mkPoint 999 v2 c, mkPoint 1000 v3 c])
           = [(0, c, Some 3), (1000, c, Some 1)] \<and>
         timestamp ` set (aggregateBuckets 1000
              [mkPoint 0 v0 c0, mkPoint 500 v1 c1, mkPoint 999 v2 c2, mkPoint 1000 v3 c3])
           = {0, 1000}"
proof (intro conjI ballI impI)
  fix p assume "p \<in> set points"
  then show "\<exists>q\<in>set (aggregateBuckets b points). sameBucket b q p"
    by (rule aggregateBuckets_covers)
next
  fix p
  show "bucketKey b p = of_int \<lfloor>timestamp p / b\<rfloor> * b" by (simp add: bucketKey_def)
  show "bucketKey b p \<le> timestamp p" using bucketKey_window [OF assms] by blast
  show "timestamp p < bucketKey b p + b" using bucketKey_window [OF assms] by blast
next
  fix q assume q: "q \<in> set (aggregateBuckets b points)"
  show "pointCount q = Some (real (length (filter (sameBucket b q) points)))"
    using aggregateBuckets_mem [OF q] by blast
  show "\<exists>p\<in>set points. sameBucket b q p"
    using aggregateBuckets_mem [OF q] by blast
next
  assume "bucketSizeOf tr = Some b"
  then show "aggregateByTimeRange tr points = aggregateBuckets b points"
    by (rule aggregateByTimeRange_mapped)
qed (simp_all only: aggregateBuckets_distinct aggregateBuckets_counts aggregateBuckets_sorted
      aggregateBuckets_scenario aggregateBuckets_scenario_keys)

theorem aggregateBuckets_partition_witness:
  "bucketSizeOf Min1 = Some 60000 \<and>
   map (\<lambda>q. (timestamp q, category q, pointCount q))
     (aggregateByTimeRange Min1
        [mkPoint 0 1 ''cpu'', mkPoint 30000 2 ''cpu'', mkPoint 59999 3 ''mem'',
         mkPoint 60000 4 ''cpu''])
     = [(0, ''cpu'', Some 2), (0, ''mem'', Some 1), (60000, ''cpu'', Some 1)] \<and>
   map (\<lambda>q. (timestamp q, category q, pointCount q))
     (aggregateBuckets 1000
        [mkPoint 0 1 ''cpu'', mkPoint 500 2 ''cpu'', mkPoint 999 3 ''cpu'',
         mkPoint 1000 4 ''cpu''])
     = [(0, ''cpu'', Some 3), (1000, ''cpu'', Some 1)]"
proof -
  let ?pts = "[mkPoint 0 1 ''cpu'', mkPoint 30000 2 ''cpu'', mkPoint 59999 3 ''mem'',
         mkPoint 60000 4 ''cpu'']"
  have pos: "(0::real) < 60000" by simp
  have sz: "bucketSizeOf Min1 = Some 60000" by (simp add: bucketSizeOf_def)
  note th = aggregateBuckets_partition [OF pos, of ?pts Min1 1 "''cpu''" 2 3 4]
  have run: "aggregateByTimeRange Min1 ?pts = aggregateBuckets 60000 ?pts"
    using th sz by blast
  have ev: "aggregated 60000 ?pts
      = [aggregatedPoint 0 (''cpu'', [1, 2]), aggregatedPoint 0 (''mem'', [3]),
         aggregatedPoint 60000 (''cpu'', [4])]"
    by (simp add: aggregated_def group_into_def aggregateBucket_def bucketKey_def mkPoint_def)
  have "map (\<lambda>q. (timestamp q, category q, pointCount q)) (aggregateByTimeRange Min1 ?pts)
     = [(0, ''cpu'', Some 2), (0, ''mem'', Some 1), (60000, ''cpu'', Some 1)]"
    by (simp add: run aggregateBuckets_def ev aggregatedPoint_fields)
  moreover have "map (\<lambda>q. (timestamp q, category q, pointCount q))
     (aggregateBuckets 1000
        [mkPoint 0 1 ''cpu'', mkPoint 500 2 ''cpu'', mkPoint 999 3 ''cpu'',
         mkPoint 1000 4 ''cpu''])
     = [(0, ''cpu'', Some 3), (1000, ''cpu'', Some 1)]"
    using th by blast
  ultimately show ?thesis using sz by blast
qed

section \<open>Double-precision arithmetic: rounding\<close>

lemma rne_of_int: "rne (of_int z) = z"
  by (simp add: rne_def)

lemma rne_le: "r \<le> of_int c \<Longrightarrow> rne r \<le> c"
  unfolding rne_def Let_def by (auto split: if_splits) linarith+

lemma rne_ge: "of_int c \<le> r \<Longrightarrow> c \<le> rne r"
  unfolding rne_def Let_def by (auto split: if_splits) linarith+

lemma expo_lower:
  assumes "x \<noteq> 0" "- 1022 < expo x"
  shows "2 powi expo x \<le> \<bar>x\<bar>"
proof (cases "1 \<le> \<bar>x\<bar>")
  case True
  let ?m = "nat \<lfloor>\<bar>x\<bar>\<rfloor>"
  have m: "0 < ?m" using True by simp
  from assms(2) True have e: "expo x = int (floorlog 2 ?m) - 1"
    by (simp add: expo_def max_def split: if_splits)
  have fl: "0 < floorlog 2 ?m"
    using m floorlog_eq_zero_iff [of 2 ?m] by (cases "floorlog 2 ?m") simp_all
  have "(2::nat) ^ (floorlog 2 ?m - 1) \<le> ?m"
    using floorlog_bounds [of ?m 2] m by simp
  then have "real ((2::nat) ^ (floorlog 2 ?m - 1)) \<le> real ?m" by (rule of_nat_mono)
  also have "real ?m \<le> \<bar>x\<bar>" using True by linarith
  finally have "(2::real) ^ (floorlog 2 ?m - 1) \<le> \<bar>x\<bar>" by simp
  moreover have "expo x = int (floorlog 2 ?m - 1)" using e fl by simp
  ultimately show ?thesis by simp
next
  case False
  let ?y = "1 / \<bar>x\<bar>"
  let ?m = "nat (\<lceil>?y\<rceil> - 1)"
  have x: "0 < \<bar>x\<bar>" "\<bar>x\<bar> < 1" using False assms(1) by simp_all
  then have y: "1 < ?y" by simp
  then have c: "2 \<le> \<lceil>?y\<rceil>" by linarith
  then have m: "0 < ?m" by simp
  from assms(2) False have e: "expo x = - int (floorlog 2 ?m)"
    by (simp add: expo_def max_def split: if_splits)
  have "?m < 2 ^ floorlog 2 ?m" using floorlog_bounds [of ?m 2] m by simp
  then have "real ?m + 1 \<le> 2 ^ floorlog 2 ?m"
    by (metis Suc_leI of_nat_Suc of_nat_le_iff of_nat_numeral of_nat_power add.commute plus_1_eq_Suc)
  moreover have "?y \<le> real ?m + 1" using c by (simp add: of_nat_nat) linarith
  ultimately have "?y \<le> 2 ^ floorlog 2 ?m" by linarith
  then have "1 / 2 ^ floorlog 2 ?m \<le> \<bar>x\<bar>"
    using x(1) by (simp add: field_simps)
  then show ?thesis by (simp add: e power_int_minus_divide)
qed

lemma expo_le:
  assumes "x \<noteq> 0" "\<bar>x\<bar> < 2 powi m" "- 1022 < m"
  shows "expo x < m"
proof (rule ccontr)
  assume "\<not> expo x < m"
  then have m: "m \<le> expo x" by simp
  then have "- 1022 < expo x" using assms(3) by simp
  then have "2 powi expo x \<le> \<bar>x\<bar>" using expo_lower assms(1) by blast
  moreover have "(2::real) powi m \<le> 2 powi expo x" using m by (intro power_int_increasing) simp_all
  ultimately show False using assms(2) by linarith
qed

lemma binary64_zero: "binary64 0 = Fin 0"
  by (simp add: binary64_def)

lemma below_overflow: "(2::real) ^ 53 < overflow_bound"
  unfolding overflow_bound_def by (rule power_strict_increasing) simp_all

lemma quantum_small:
  assumes "e \<le> 52"
  shows "(2::real) powi (e - 52) = 1 / 2 ^ nat (52 - e)"
proof -
  have "e - 52 = - int (nat (52 - e))" using assms by simp
  then show ?thesis by (simp only: power_int_minus_divide power_int_of_nat)
qed

lemma real_int_less_2_53: "z < 2 ^ 53 \<Longrightarrow> (of_int z :: real) < 2 ^ 53"
  by (metis of_int_less_numeral_power_cancel_iff)

lemma binary64_dyadic:
  assumes "\<bar>n\<bar> < 2 ^ 53" "k \<le> 1074"
  shows "binary64 (of_int n / 2 ^ k) = Fin (of_int n / 2 ^ k)"
proof (cases "n = 0")
  case True
  then show ?thesis by (simp add: binary64_zero)
next
  case False
  let ?x = "of_int n / 2 ^ k :: real"
  have x0: "?x \<noteq> 0" using False by simp
  have n53: "\<bar>of_int n :: real\<bar> < 2 ^ 53"
    using real_int_less_2_53 [OF assms(1)] by simp
  have "\<bar>?x\<bar> = \<bar>of_int n\<bar> / 2 ^ k" by (simp add: abs_divide)
  also have "\<dots> < 2 ^ 53 / 2 ^ k"
    using n53 by (intro divide_strict_right_mono) simp_all
  finally have lt: "\<bar>?x\<bar> < 2 ^ 53 / 2 ^ k" .
  have "(2::real) ^ 53 / 2 ^ k = 2 powi (53 - int k)" by (simp add: power_int_diff)
  with lt have "\<bar>?x\<bar> < 2 powi (53 - int k)" by simp
  moreover have "- 1022 < 53 - int k" using assms(2) by simp
  ultimately have e: "expo ?x < 53 - int k" using expo_le [OF x0] by blast
  define j where "j = nat (52 - int k - expo ?x)"
  have ej: "expo ?x = 52 - int k - int j" using e by (simp add: j_def)
  have q: "(2::real) powi (expo ?x - 52) = 1 / 2 ^ (k + j)"
  proof -
    have "expo ?x - 52 = - int (k + j)" using ej by simp
    then show ?thesis by (simp only: power_int_minus_divide power_int_of_nat)
  qed
  have xq: "?x / 2 powi (expo ?x - 52) = of_int (n * 2 ^ j)"
    by (simp add: q power_add)
  have y: "rounded ?x = ?x"
    unfolding rounded_def Let_def by (simp only: xq rne_of_int) (simp add: q power_add)
  have "(2::real) ^ 53 / 2 ^ k \<le> 2 ^ 53" by (simp add: field_simps)
  with lt below_overflow have "\<not> overflow_bound \<le> \<bar>?x\<bar>" by linarith
  then show ?thesis using x0 by (simp only: binary64_def y if_False)
qed

lemma binary64_of_int:
  assumes "\<bar>n\<bar> < 2 ^ 53"
  shows "binary64 (of_int n) = Fin (of_int n)"
  using binary64_dyadic [OF assms, of 0] by simp



lemma rne_lower: "r - 1/2 \<le> of_int (rne r)"
  unfolding rne_def Let_def by (auto split: if_splits) linarith+

lemma rne_upper: "of_int (rne r) \<le> r + 1/2"
  unfolding rne_def Let_def by (auto split: if_splits) linarith+

lemma expo_ge: "- 1022 \<le> expo x"
  by (simp add: expo_def)

lemma rounded_pos:
  "rounded x = of_int (rne (x / 2 powi (expo x - 52))) * 2 powi (expo x - 52)"
  by (simp add: rounded_def Let_def)

lemma quantum_bound:
  assumes "0 < x"
  shows "2 powi (expo x - 52) / 2 \<le> max (x / 2 ^ 53) (min_double / 2)"
proof (cases "- 1022 < expo x")
  case True
  then have "2 powi expo x \<le> \<bar>x\<bar>" using expo_lower [of x] assms by simp
  then have "2 powi expo x \<le> x" using assms by simp
  moreover have "(2::real) powi (expo x - 52) = 2 powi expo x / 2 ^ 52"
    by (simp add: power_int_diff)
  ultimately have "2 powi (expo x - 52) / 2 \<le> x / 2 ^ 53" by simp
  then show ?thesis by (simp add: max_def)
next
  case False
  then have "expo x = - 1022" using expo_ge [of x] by simp
  then have "expo x - 52 = - 1074" by simp
  then have "(2::real) powi (expo x - 52) = min_double" by (simp only: min_double_def)
  then show ?thesis by (simp only: max.cobounded2)
qed

lemma rounded_error:
  assumes "0 < x"
  shows "x - max (x / 2 ^ 53) (min_double / 2) \<le> rounded x"
    and "rounded x \<le> x + max (x / 2 ^ 53) (min_double / 2)"
proof -
  let ?q = "(2::real) powi (expo x - 52)"
  have qpos: "0 < ?q" by simp
  have qb: "?q / 2 \<le> max (x / 2 ^ 53) (min_double / 2)" using assms by (rule quantum_bound)
  have "(x / ?q - 1/2) * ?q \<le> of_int (rne (x / ?q)) * ?q"
    using rne_lower [of "x / ?q"] qpos by (simp only: mult_le_cancel_right_pos)
  moreover have "(x / ?q - 1/2) * ?q = x - ?q / 2" using qpos by (simp add: field_simps)
  ultimately have "x - ?q / 2 \<le> rounded x" by (simp only: rounded_pos)
  then show "x - max (x / 2 ^ 53) (min_double / 2) \<le> rounded x" using qb by linarith
  have "of_int (rne (x / ?q)) * ?q \<le> (x / ?q + 1/2) * ?q"
    using rne_upper [of "x / ?q"] qpos by (simp only: mult_le_cancel_right_pos)
  moreover have "(x / ?q + 1/2) * ?q = x + ?q / 2" using qpos by (simp add: field_simps)
  ultimately have "rounded x \<le> x + ?q / 2" by (simp only: rounded_pos)
  then show "rounded x \<le> x + max (x / 2 ^ 53) (min_double / 2)" using qb by linarith
qed

lemma binary64_error:
  assumes "0 < x"
  shows "binary64 x = PInf \<or>
         (\<exists>y. binary64 x = Fin y \<and> x - max (x / 2 ^ 53) (min_double / 2) \<le> y \<and>
              y \<le> x + max (x / 2 ^ 53) (min_double / 2))"
  using assms rounded_error [OF assms] by (simp add: binary64_def)

lemma representable_lower:
  assumes "representable h" "0 < h"
  shows "min_double \<le> h"
proof -
  let ?q = "(2::real) powi (expo h - 52)"
  have qpos: "0 < ?q" by simp
  have "binary64 h = Fin h" using assms(1) by (simp add: representable_def)
  then have r: "rounded h = h" using assms(2) by (simp add: binary64_def split: if_splits)
  then have hq: "h = of_int (rne (h / ?q)) * ?q" by (simp only: rounded_pos)
  have "0 < of_int (rne (h / ?q)) * ?q" using assms(2) hq by simp
  then have "(0::real) < of_int (rne (h / ?q))" using qpos by (simp add: zero_less_mult_iff)
  then have "1 \<le> rne (h / ?q)" by simp
  then have "(1::real) \<le> of_int (rne (h / ?q))" by simp
  then have "1 * ?q \<le> of_int (rne (h / ?q)) * ?q"
    using qpos by (simp only: mult_le_cancel_right_pos)
  then have "?q \<le> h" using hq by simp
  moreover have "(2::real) powi (- 1074) \<le> ?q"
    using expo_ge [of h] by (intro power_int_increasing) simp_all
  ultimately show ?thesis by (simp only: min_double_def)
qed

lemma rounded_ge_dyadic:
  assumes "0 \<le> z" "z < 2 ^ 53" "k \<le> 1074" "of_int z / 2 ^ k \<le> x" "0 < x"
  shows "of_int z / 2 ^ k \<le> rounded x"
proof -
  let ?q = "(2::real) powi (expo x - 52)"
  have qpos: "0 < ?q" by simp
  show ?thesis
  proof (cases "expo x \<le> 52 - int k")
    case True
    let ?j = "nat (52 - expo x)"
    have kj: "k \<le> ?j" using True by simp
    have q: "?q = 1 / 2 ^ ?j" using True by (intro quantum_small) simp
    have p: "(2::real) ^ ?j = 2 ^ (?j - k) * 2 ^ k"
      using kj by (simp add: power_add [symmetric])
    have "of_int z / 2 ^ k / ?q = of_int (z * 2 ^ (?j - k))"
      by (simp add: q p)
    then have "of_int (z * 2 ^ (?j - k)) \<le> x / ?q"
      using assms(4) qpos by (metis divide_right_mono less_imp_le)
    then have "z * 2 ^ (?j - k) \<le> rne (x / ?q)" by (rule rne_ge)
    then have "(of_int (z * 2 ^ (?j - k)) :: real) \<le> of_int (rne (x / ?q))"
      by (simp only: of_int_le_iff)
    then have "of_int (z * 2 ^ (?j - k)) * ?q \<le> rounded x"
      using qpos by (simp only: rounded_pos mult_le_cancel_right_pos)
    moreover have "of_int (z * 2 ^ (?j - k)) * ?q = of_int z / 2 ^ k"
      by (simp add: q p)
    ultimately show ?thesis by simp
  next
    case False
    then have e: "53 - int k \<le> expo x" by simp
    then have "- 1022 < expo x" using assms(3) by simp
    then have "2 powi expo x \<le> \<bar>x\<bar>" using expo_lower [of x] assms(5) by simp
    then have "2 powi expo x / ?q \<le> x / ?q" using assms(5) qpos by (simp add: divide_right_mono)
    moreover have "2 powi expo x / ?q = (2::real) ^ 52"
      by (simp add: power_int_diff)
    ultimately have "of_int (2 ^ 52) \<le> x / ?q" by simp
    then have "2 ^ 52 \<le> rne (x / ?q)" by (rule rne_ge)
    then have a: "(2::real) ^ 52 \<le> of_int (rne (x / ?q))"
      by (metis of_int_le_iff of_int_numeral of_int_power)
    have "(2::real) ^ 52 * ?q \<le> of_int (rne (x / ?q)) * ?q"
      using a qpos by (simp only: mult_le_cancel_right_pos)
    moreover have "(2::real) ^ 52 * ?q = 2 powi expo x" by (simp add: power_int_diff)
    ultimately have b: "2 powi expo x \<le> rounded x" by (simp only: rounded_pos)
    have "(2::real) powi (53 - int k) \<le> 2 powi expo x"
      using e by (intro power_int_increasing) simp_all
    moreover have "(2::real) powi (53 - int k) = 2 ^ 53 / 2 ^ k" by (simp add: power_int_diff)
    moreover have "(of_int z :: real) / 2 ^ k \<le> 2 ^ 53 / 2 ^ k"
      using real_int_less_2_53 [OF assms(2)] by (intro divide_right_mono) simp_all
    ultimately show ?thesis using b by linarith
  qed
qed

lemma rounded_le_dyadic:
  assumes "0 \<le> z" "z < 2 ^ 53" "k \<le> 1074" "x \<le> of_int z / 2 ^ k" "0 < x"
  shows "rounded x \<le> of_int z / 2 ^ k"
proof -
  let ?q = "(2::real) powi (expo x - 52)"
  have qpos: "0 < ?q" by simp
  have x0: "x \<noteq> 0" using assms(5) by simp
  have "(of_int z :: real) / 2 ^ k < 2 ^ 53 / 2 ^ k"
    using real_int_less_2_53 [OF assms(2)] by (intro divide_strict_right_mono) simp_all
  moreover have "(2::real) powi (53 - int k) = 2 ^ 53 / 2 ^ k" by (simp add: power_int_diff)
  ultimately have "\<bar>x\<bar> < 2 powi (53 - int k)" using assms(4,5) by simp
  moreover have "- 1022 < 53 - int k" using assms(3) by simp
  ultimately have "expo x < 53 - int k" using expo_le [OF x0] by blast
  then have e: "expo x \<le> 52 - int k" by simp
  let ?j = "nat (52 - expo x)"
  have kj: "k \<le> ?j" using e by simp
  have q: "?q = 1 / 2 ^ ?j" using e by (intro quantum_small) simp
  have p: "(2::real) ^ ?j = 2 ^ (?j - k) * 2 ^ k"
    using kj by (simp add: power_add [symmetric])
  have "of_int z / 2 ^ k / ?q = of_int (z * 2 ^ (?j - k))"
    by (simp add: q p)
  then have "x / ?q \<le> of_int (z * 2 ^ (?j - k))"
    using assms(4) qpos by (metis divide_right_mono less_imp_le)
  then have "rne (x / ?q) \<le> z * 2 ^ (?j - k)" by (rule rne_le)
  then have "(of_int (rne (x / ?q)) :: real) \<le> of_int (z * 2 ^ (?j - k))"
    by (simp only: of_int_le_iff)
  then have "rounded x \<le> of_int (z * 2 ^ (?j - k)) * ?q"
    using qpos by (simp only: rounded_pos mult_le_cancel_right_pos)
  moreover have "of_int (z * 2 ^ (?j - k)) * ?q = of_int z / 2 ^ k"
    by (simp add: q p)
  ultimately show ?thesis by simp
qed

lemma rounded_nonneg:
  assumes "0 < x"
  shows "0 \<le> rounded x"
proof -
  have "of_int 0 \<le> x / 2 powi (expo x - 52)" using assms by simp
  then have "0 \<le> rne (x / 2 powi (expo x - 52))" by (rule rne_ge)
  then show ?thesis by (simp add: rounded_pos)
qed

lemma rounded_nonpos:
  assumes "x < 0"
  shows "rounded x \<le> 0"
proof -
  have "x / 2 powi (expo x - 52) \<le> of_int 0" using assms by (simp add: divide_nonpos_pos)
  then have "rne (x / 2 powi (expo x - 52)) \<le> 0" by (rule rne_le)
  then show ?thesis by (simp add: rounded_pos mult_le_0_iff)
qed

lemma binary64_ge_dyadic:
  assumes "0 \<le> z" "z < 2 ^ 53" "k \<le> 1074" "of_int z / 2 ^ k \<le> x"
  shows "binary64 x = PInf \<or> (\<exists>y. binary64 x = Fin y \<and> of_int z / 2 ^ k \<le> y)"
proof (cases "x = 0")
  case True
  then show ?thesis using assms by (simp add: binary64_zero)
next
  case False
  have "(0::real) \<le> of_int z / 2 ^ k" using assms(1) by simp
  then have x: "0 < x" using assms(4) False by linarith
  have "of_int z / 2 ^ k \<le> rounded x" using assms x by (rule rounded_ge_dyadic)
  then show ?thesis using x False by (simp add: binary64_def)
qed

lemma binary64_le_dyadic:
  assumes "0 \<le> z" "z < 2 ^ 53" "k \<le> 1074" "x \<le> of_int z / 2 ^ k"
  shows "binary64 x = NInf \<or> (\<exists>y. binary64 x = Fin y \<and> y \<le> of_int z / 2 ^ k)"
proof (cases "x = 0")
  case True
  then show ?thesis using assms by (simp add: binary64_zero)
next
  case False
  have z0: "(0::real) \<le> of_int z / 2 ^ k" using assms(1) by simp
  show ?thesis
  proof (cases "x < 0")
    case True
    then have "rounded x \<le> of_int z / 2 ^ k" using rounded_nonpos [of x] z0 by linarith
    then show ?thesis using True False by (simp add: binary64_def)
  next
    case pos: False
    then have x: "0 < x" using False by simp
    have le: "rounded x \<le> of_int z / 2 ^ k" using assms x by (rule rounded_le_dyadic)
    have "(1::real) \<le> 2 ^ k" by simp
    then have "(of_int z :: real) * 1 \<le> of_int z * 2 ^ k"
      using assms(1) by (intro mult_left_mono) simp_all
    then have "(of_int z :: real) / 2 ^ k \<le> of_int z" by (simp add: field_simps)
    then have "rounded x < 2 ^ 53" using le real_int_less_2_53 [OF assms(2)] by linarith
    then have "\<not> overflow_bound \<le> \<bar>rounded x\<bar>"
      using rounded_nonneg [OF x] below_overflow by linarith
    then show ?thesis using le False by (simp add: binary64_def)
  qed
qed

lemma binary64_ge_int:
  assumes "0 \<le> z" "z < 2 ^ 53" "of_int z \<le> x"
  shows "binary64 x = PInf \<or> (\<exists>y. binary64 x = Fin y \<and> of_int z \<le> y)"
  using binary64_ge_dyadic [of z 0 x] assms by simp

lemma binary64_le_int:
  assumes "0 \<le> z" "z < 2 ^ 53" "x \<le> of_int z"
  shows "binary64 x = NInf \<or> (\<exists>y. binary64 x = Fin y \<and> y \<le> of_int z)"
  using binary64_le_dyadic [of z 0 x] assms by simp

lemma binary64_nonneg:
  assumes "0 \<le> x"
  shows "binary64 x = PInf \<or> (\<exists>y. binary64 x = Fin y \<and> 0 \<le> y)"
  using binary64_ge_dyadic [of 0 0 x] assms by simp

lemma binary64_nonpos:
  assumes "x \<le> 0"
  shows "binary64 x = NInf \<or> (\<exists>y. binary64 x = Fin y \<and> y \<le> 0)"
  using binary64_le_dyadic [of 0 0 x] assms by simp

lemma binary64_not_NaN: "binary64 x \<noteq> NaN"
  by (simp add: binary64_def)

lemma expo_upper:
  assumes "x \<noteq> 0"
  shows "\<bar>x\<bar> < 2 powi (expo x + 1)"
proof (cases "1 \<le> \<bar>x\<bar>")
  case True
  let ?m = "nat \<lfloor>\<bar>x\<bar>\<rfloor>"
  have m: "0 < ?m" using True by simp
  have e: "expo x = int (floorlog 2 ?m) - 1"
    using True by (simp add: expo_def max_def)
  have "?m < 2 ^ floorlog 2 ?m" using floorlog_bounds [of ?m 2] m by simp
  then have "real ?m + 1 \<le> 2 ^ floorlog 2 ?m"
    by (metis Suc_leI of_nat_Suc of_nat_le_iff of_nat_numeral of_nat_power add.commute)
  moreover have "\<bar>x\<bar> < real ?m + 1" using True by linarith
  ultimately have "\<bar>x\<bar> < 2 ^ floorlog 2 ?m" by linarith
  moreover have "expo x + 1 = int (floorlog 2 ?m)" using e by simp
  ultimately show ?thesis by (simp only: power_int_of_nat)
next
  case False
  let ?y = "1 / \<bar>x\<bar>"
  let ?m = "nat (\<lceil>?y\<rceil> - 1)"
  have x: "0 < \<bar>x\<bar>" "\<bar>x\<bar> < 1" using False assms by simp_all
  then have y: "1 < ?y" by simp
  then have c: "2 \<le> \<lceil>?y\<rceil>" by linarith
  then have m: "0 < ?m" by simp
  have fl: "0 < floorlog 2 ?m"
    using m floorlog_eq_zero_iff [of 2 ?m] by (cases "floorlog 2 ?m") simp_all
  have "(2::nat) ^ (floorlog 2 ?m - 1) \<le> ?m" using floorlog_bounds [of ?m 2] m by simp
  then have "real ((2::nat) ^ (floorlog 2 ?m - 1)) \<le> real ?m" by (rule of_nat_mono)
  then have a: "(2::real) ^ (floorlog 2 ?m - 1) \<le> real ?m" by simp
  have "real ?m < ?y" using c by (simp add: of_nat_nat) linarith
  with a have "(2::real) ^ (floorlog 2 ?m - 1) < ?y" by linarith
  then have "\<bar>x\<bar> * 2 ^ (floorlog 2 ?m - 1) < 1" using x(1) by (simp add: field_simps)
  then have "\<bar>x\<bar> < 1 / 2 ^ (floorlog 2 ?m - 1)" by (simp add: field_simps)
  also have "\<dots> = 2 powi (- int (floorlog 2 ?m - 1))"
    by (simp only: power_int_minus_divide power_int_of_nat)
  also have "\<dots> = 2 powi (- int (floorlog 2 ?m) + 1)" using fl by simp
  also have "\<dots> \<le> 2 powi (expo x + 1)"
    using False by (intro power_int_increasing) (simp_all add: expo_def)
  finally show ?thesis .
qed

lemma expo_eq:
  assumes "2 powi e \<le> \<bar>x\<bar>" "\<bar>x\<bar> < 2 powi (e + 1)" "- 1022 \<le> e"
  shows "expo x = e"
proof -
  have x0: "x \<noteq> 0" using assms(1) by (metis abs_zero not_le zero_less_numeral zero_less_power_int)
  have "expo x < e + 1" using expo_le [OF x0 assms(2)] assms(3) by simp
  moreover have "e \<le> expo x"
  proof (rule ccontr)
    assume "\<not> e \<le> expo x"
    then have "expo x + 1 \<le> e" by simp
    then have "(2::real) powi (expo x + 1) \<le> 2 powi e" by (intro power_int_increasing) simp_all
    then show False using expo_upper [OF x0] assms(1) by linarith
  qed
  ultimately show ?thesis by simp
qed

lemma rounded_ge_power:
  assumes "0 < x" "- 1022 < expo x"
  shows "2 powi expo x \<le> rounded x"
proof -
  let ?q = "(2::real) powi (expo x - 52)"
  have qpos: "0 < ?q" by simp
  have "2 powi expo x \<le> \<bar>x\<bar>" using expo_lower [of x] assms by simp
  then have "2 powi expo x / ?q \<le> x / ?q" using assms(1) qpos by (simp add: divide_right_mono)
  moreover have "2 powi expo x / ?q = (2::real) ^ 52"
    by (simp add: power_int_diff)
  ultimately have "of_int (2 ^ 52) \<le> x / ?q" by simp
  then have "2 ^ 52 \<le> rne (x / ?q)" by (rule rne_ge)
  then have a: "(2::real) ^ 52 \<le> of_int (rne (x / ?q))"
    by (metis of_int_le_iff of_int_numeral of_int_power)
  have "(2::real) ^ 52 * ?q \<le> of_int (rne (x / ?q)) * ?q"
    using a qpos by (simp only: mult_le_cancel_right_pos)
  moreover have "(2::real) ^ 52 * ?q = 2 powi expo x" by (simp add: power_int_diff)
  ultimately show ?thesis by (simp only: rounded_pos)
qed

lemma overflow_bound_powi: "overflow_bound = 2 powi (int 1024)"
  by (simp only: overflow_bound_def power_int_of_nat)

lemma binary64_overflow:
  assumes "overflow_bound \<le> x"
  shows "binary64 x = PInf"
proof -
  have ob: "0 < overflow_bound" by (simp add: overflow_bound_def)
  then have x: "0 < x" using assms by linarith
  have e: "int 1024 \<le> expo x"
  proof (rule ccontr)
    assume "\<not> int 1024 \<le> expo x"
    then have "expo x + 1 \<le> int 1024" by simp
    then have "(2::real) powi (expo x + 1) \<le> 2 powi (int 1024)"
      by (intro power_int_increasing) simp_all
    moreover have "\<bar>x\<bar> < 2 powi (expo x + 1)" using x by (intro expo_upper) simp
    ultimately have "x < 2 powi (int 1024)" using x by linarith
    with assms show False unfolding overflow_bound_powi by linarith
  qed
  then have "- 1022 < expo x" by simp
  then have "2 powi expo x \<le> rounded x" using x by (intro rounded_ge_power)
  moreover have "(2::real) powi (int 1024) \<le> 2 powi expo x"
    using e by (intro power_int_increasing) simp_all
  ultimately have "overflow_bound \<le> rounded x" by (simp only: overflow_bound_powi)
  then have "overflow_bound \<le> \<bar>rounded x\<bar>" by linarith
  then show ?thesis using x by (simp add: binary64_def)
qed

lemma binary64_scaled:
  assumes "\<bar>n\<bar> < 2 ^ 53" "- 1074 \<le> e" "e \<le> 971"
  shows "binary64 (of_int n * 2 powi e) = Fin (of_int n * 2 powi e)"
proof (cases "n = 0")
  case True
  then show ?thesis by (simp add: binary64_zero)
next
  case False
  let ?x = "of_int n * 2 powi e :: real"
  have x0: "?x \<noteq> 0" using False by simp
  have n53: "\<bar>of_int n :: real\<bar> < 2 ^ 53"
    using real_int_less_2_53 [OF assms(1)] by simp
  have "\<bar>?x\<bar> = \<bar>of_int n\<bar> * 2 powi e" by (simp add: abs_mult)
  also have "\<dots> < 2 ^ 53 * 2 powi e"
    using n53 by (intro mult_strict_right_mono) simp_all
  also have "\<dots> = 2 powi (53 + e)" by (simp add: power_int_add)
  finally have lt: "\<bar>?x\<bar> < 2 powi (53 + e)" .
  moreover have "- 1022 < 53 + e" using assms(2) by simp
  ultimately have ex: "expo ?x < 53 + e" using expo_le [OF x0] by blast
  define j where "j = nat (52 + e - expo ?x)"
  have ej: "expo ?x - 52 = e - int j" using ex by (simp add: j_def)
  have q: "(2::real) powi (expo ?x - 52) = 2 powi e / 2 ^ j"
    by (simp add: ej power_int_diff)
  have xq: "?x / 2 powi (expo ?x - 52) = of_int (n * 2 ^ j)"
    by (simp add: q)
  have y: "rounded ?x = ?x"
    unfolding rounded_def Let_def by (simp only: xq rne_of_int) (simp add: q)
  have "(2::real) powi (53 + e) \<le> 2 powi (int 1024)"
    using assms(3) by (intro power_int_increasing) simp_all
  with lt have "\<not> overflow_bound \<le> \<bar>?x\<bar>" unfolding overflow_bound_powi by linarith
  then show ?thesis using x0 by (simp only: binary64_def y if_False)
qed

lemma binary64_numeral:
  "(numeral w :: int) < 2 ^ 53 \<Longrightarrow> binary64 (numeral w) = Fin (numeral w)"
  using binary64_of_int [of "numeral w"] by simp

lemma binary64_one: "binary64 1 = Fin 1"
  using binary64_of_int [of 1] by simp

lemma representable_int: "\<bar>n\<bar> < 2 ^ 53 \<Longrightarrow> representable (of_int n)"
  by (simp add: representable_def binary64_of_int)

lemma representable_dyadic: "\<bar>n\<bar> < 2 ^ 53 \<Longrightarrow> k \<le> 1074 \<Longrightarrow> representable (of_int n / 2 ^ k)"
  by (simp add: representable_def binary64_dyadic)

lemma jlt_PInf: "\<not> jlt PInf x"
  by (cases x) simp_all

section \<open>Scroll virtualizer: the visible range\<close>

lemma visibleRange_fields:
  "startIndex (visibleRange s h v n k) = jmax (Fin 0) (jsub (jfloor (jdiv s h)) k)"
  "endIndex (visibleRange s h v n k) = jmin (jsub n (Fin 1)) (jadd (jceil (jdiv (jadd s v) h)) k)"
  by (simp_all add: visibleRange_def Let_def)

lemma jle_jmax_zero:
  assumes "0 \<le> i" "x = NInf \<or> (\<exists>y. x = Fin y \<and> y \<le> i)"
  shows "jle (jmax (Fin 0) x) (Fin i)"
  using assms by auto

lemma jle_jmin:
  assumes "i \<le> m" "x = PInf \<or> (\<exists>y. x = Fin y \<and> i \<le> y)"
  shows "jle (Fin i) (jmin (Fin m) x)"
  using assms by auto

lemma last_index:
  assumes "0 < n" "n \<le> 2 ^ 52"
  shows "jsub (Fin (of_int n)) (Fin 1) = Fin (of_int (n - 1))"
proof -
  have "\<bar>n - 1\<bar> < 2 ^ 53" using assms by simp
  then have "binary64 (of_int (n - 1)) = Fin (of_int (n - 1))" by (rule binary64_of_int)
  then show ?thesis by (simp add: jsub_def)
qed

lemma visibleRange_start_core:
  assumes "0 < h" "0 \<le> i" "i < 2 ^ 52" "0 \<le> k" "s / h \<le> of_int i + 1/2"
  shows "jle (startIndex (visibleRange (Fin s) (Fin h) v n (Fin (of_int k)))) (Fin (of_int i))"
proof -
  have i0: "(0::real) \<le> of_int i" using assms(2) by simp
  have d: "jdiv (Fin s) (Fin h) = binary64 (s / h)" using assms(1) by simp
  have half: "(of_int (2 * i + 1) :: real) / 2 ^ 1 = of_int i + 1/2" by (simp add: field_simps)
  have "s / h \<le> of_int (2 * i + 1) / 2 ^ 1" using assms(5) by (simp only: half)
  moreover have "0 \<le> 2 * i + 1" "2 * i + 1 < 2 ^ 53" using assms(2,3) by simp_all
  ultimately have "binary64 (s / h) = NInf \<or>
      (\<exists>y. binary64 (s / h) = Fin y \<and> y \<le> of_int (2 * i + 1) / 2 ^ 1)"
    by (intro binary64_le_dyadic) simp_all
  then consider "binary64 (s / h) = NInf"
    | y where "binary64 (s / h) = Fin y" "y \<le> of_int i + 1/2" by (auto simp only: half)
  then have "jsub (jfloor (jdiv (Fin s) (Fin h))) (Fin (of_int k)) = NInf \<or>
      (\<exists>y. jsub (jfloor (jdiv (Fin s) (Fin h))) (Fin (of_int k)) = Fin y \<and> y \<le> of_int i)"
  proof cases
    case 1
    show ?thesis unfolding d 1 by (simp add: jsub_def)
  next
    case (2 y)
    have "\<lfloor>y\<rfloor> \<le> i" using 2(2) by linarith
    then have "of_int \<lfloor>y\<rfloor> + - of_int k \<le> (of_int i :: real)" using assms(4) by linarith
    then have "binary64 (of_int \<lfloor>y\<rfloor> + - of_int k) = NInf \<or>
      (\<exists>y'. binary64 (of_int \<lfloor>y\<rfloor> + - of_int k) = Fin y' \<and> y' \<le> of_int i)"
      using assms(2,3) by (intro binary64_le_int) simp_all
    then show ?thesis unfolding d 2(1) by (simp add: jsub_def)
  qed
  then show ?thesis unfolding visibleRange_fields using i0 by (rule jle_jmax_zero [rotated])
qed

lemma visibleRange_end_core:
  assumes "0 < h" "0 \<le> i" "i < n" "n \<le> 2 ^ 52" "0 \<le> k"
    "binary64 (s + v) = PInf \<or>
     (\<exists>e. binary64 (s + v) = Fin e \<and> 0 \<le> e \<and> of_int i - 1/2 \<le> e / h)"
  shows "jle (Fin (of_int i))
           (endIndex (visibleRange (Fin s) (Fin h) (Fin v) (Fin (of_int n)) (Fin (of_int k))))"
proof -
  have n: "jsub (Fin (of_int n)) (Fin 1) = Fin (of_int (n - 1))"
    using assms(2,3,4) by (intro last_index) simp_all
  have le: "(of_int i :: real) \<le> of_int (n - 1)" using assms(3) by simp
  have q: "jdiv (jadd (Fin s) (Fin v)) (Fin h) = PInf \<or>
      (\<exists>y. jdiv (jadd (Fin s) (Fin v)) (Fin h) = Fin y \<and> i \<le> \<lceil>y\<rceil>)"
    using assms(6)
  proof (elim disjE exE conjE)
    assume "binary64 (s + v) = PInf"
    then show ?thesis using assms(1) by simp
  next
    fix e assume e: "binary64 (s + v) = Fin e" "0 \<le> e" "of_int i - 1/2 \<le> e / h"
    have d: "jdiv (jadd (Fin s) (Fin v)) (Fin h) = binary64 (e / h)"
      using assms(1) by (simp add: e(1))
    show ?thesis
    proof (cases "i = 0")
      case True
      have "0 \<le> e / h" using e(2) assms(1) by simp
      then have "binary64 (e / h) = PInf \<or> (\<exists>y. binary64 (e / h) = Fin y \<and> 0 \<le> y)"
        by (rule binary64_nonneg)
      then show ?thesis unfolding d using True by (auto simp: ceiling_le_iff)
    next
      case False
      then have i1: "1 \<le> i" using assms(2) by simp
      have half: "(of_int (2 * i - 1) :: real) / 2 ^ 1 = of_int i - 1/2" by (simp add: field_simps)
      have "of_int (2 * i - 1) / 2 ^ 1 \<le> e / h" using e(3) by (simp only: half)
      moreover have "0 \<le> 2 * i - 1" "2 * i - 1 < 2 ^ 53" using i1 assms(3,4) by simp_all
      ultimately have "binary64 (e / h) = PInf \<or>
          (\<exists>y. binary64 (e / h) = Fin y \<and> of_int (2 * i - 1) / 2 ^ 1 \<le> y)"
        by (intro binary64_ge_dyadic) simp_all
      then consider "binary64 (e / h) = PInf"
        | y where "binary64 (e / h) = Fin y" "of_int i - 1/2 \<le> y" by (auto simp only: half)
      then show ?thesis
      proof cases
        case 1
        then show ?thesis unfolding d by simp
      next
        case (2 y)
        have "i \<le> \<lceil>y\<rceil>" using 2(2) by linarith
        then show ?thesis unfolding d 2(1) by simp
      qed
    qed
  qed
  have "jadd (jceil (jdiv (jadd (Fin s) (Fin v)) (Fin h))) (Fin (of_int k)) = PInf \<or>
      (\<exists>y. jadd (jceil (jdiv (jadd (Fin s) (Fin v)) (Fin h))) (Fin (of_int k)) = Fin y \<and>
           of_int i \<le> y)"
    using q
  proof (elim disjE exE conjE)
    assume a: "jdiv (jadd (Fin s) (Fin v)) (Fin h) = PInf"
    show ?thesis unfolding a by simp
  next
    fix y assume y: "jdiv (jadd (Fin s) (Fin v)) (Fin h) = Fin y" "i \<le> \<lceil>y\<rceil>"
    have "(of_int i :: real) \<le> of_int \<lceil>y\<rceil> + of_int k" using y(2) assms(5) by linarith
    then have "binary64 (of_int \<lceil>y\<rceil> + of_int k) = PInf \<or>
      (\<exists>y'. binary64 (of_int \<lceil>y\<rceil> + of_int k) = Fin y' \<and> of_int i \<le> y')"
      using assms(2,3,4) by (intro binary64_ge_int) simp_all
    then show ?thesis unfolding y(1) by simp
  qed
  then show ?thesis unfolding visibleRange_fields n using le by (rule jle_jmin [rotated])
qed

lemma window_error:
  assumes "min_double \<le> h" "i \<le> 2 ^ 52"
  shows "of_int i * h / 2 ^ 53 \<le> h / 2" "min_double / 2 \<le> h / 2"
proof -
  have "(0::real) < min_double" by (simp add: min_double_def)
  then have h: "0 \<le> h" using assms(1) by linarith
  have "(of_int i :: real) \<le> 2 ^ 52"
    using assms(2) by (metis of_int_le_iff of_int_numeral of_int_power)
  then have "of_int i * h \<le> 2 ^ 52 * h" using h by (rule mult_right_mono)
  then have "of_int i * h / 2 ^ 53 \<le> 2 ^ 52 * h / 2 ^ 53" by (rule divide_right_mono) simp
  moreover have "2 ^ 52 * h / 2 ^ 53 = h / 2" by simp
  ultimately show "of_int i * h / 2 ^ 53 \<le> h / 2" by (simp only:)
  show "min_double / 2 \<le> h / 2" using assms(1) by simp
qed

lemma window_below:
  assumes "min_double \<le> h" "i \<le> 2 ^ 52" "of_int i * h \<le> t"
  shows "(of_int i - 1/2) * h \<le> t - max (t / 2 ^ 53) (min_double / 2)"
proof -
  define p where "p = of_int i * h"
  have a: "p / 2 ^ 53 \<le> h / 2" "min_double / 2 \<le> h / 2"
    unfolding p_def using assms(1,2) by (rule window_error)+
  have b: "(of_int i - 1/2) * h = p - h / 2" by (simp add: p_def algebra_simps)
  have c: "p \<le> t" using assms(3) by (simp add: p_def)
  have "p - h / 2 \<le> t - max (t / 2 ^ 53) (min_double / 2)"
    using a c by (simp add: max_def)
  then show ?thesis by (simp only: b)
qed

lemma window_above:
  assumes "min_double \<le> h" "i \<le> 2 ^ 52" "t \<le> of_int i * h"
  shows "t + max (t / 2 ^ 53) (min_double / 2) \<le> (of_int i + 1/2) * h"
proof -
  define p where "p = of_int i * h"
  have a: "p / 2 ^ 53 \<le> h / 2" "min_double / 2 \<le> h / 2"
    unfolding p_def using assms(1,2) by (rule window_error)+
  have b: "(of_int i + 1/2) * h = p + h / 2" by (simp add: p_def algebra_simps)
  have c: "t \<le> p" using assms(3) by (simp add: p_def)
  have "t + max (t / 2 ^ 53) (min_double / 2) \<le> p + h / 2"
    using a c by (simp add: max_def)
  then show ?thesis by (simp only: b)
qed

lemma visibleRange_exact_window:
  assumes "0 \<le> s" "0 < h" "0 < v" "0 \<le> k" "representable h" "n \<le> 2 ^ 52"
    "i < n" "s \<le> of_int i * h" "of_int i * h < s + v"
  shows "jle (startIndex (visibleRange (Fin s) (Fin h) (Fin v) (Fin (of_int n)) (Fin (of_int k))))
           (Fin (of_int i)) \<and>
         jle (Fin (of_int i))
           (endIndex (visibleRange (Fin s) (Fin h) (Fin v) (Fin (of_int n)) (Fin (of_int k))))"
proof
  have "0 \<le> of_int i * h" using assms(1,8) by linarith
  then have "0 \<le> (of_int i :: real)" using assms(2) by (simp add: zero_le_mult_iff)
  then have i0: "0 \<le> i" by simp
  have i52: "i < 2 ^ 52" using assms(6,7) by simp
  have md: "min_double \<le> h" using assms(5,2) by (rule representable_lower)
  have "s / h \<le> of_int i" using assms(2,8) by (simp add: pos_divide_le_eq)
  then have "s / h \<le> of_int i + 1/2" by simp
  with assms(2) i0 i52 assms(4)
  show "jle (startIndex (visibleRange (Fin s) (Fin h) (Fin v) (Fin (of_int n)) (Fin (of_int k))))
          (Fin (of_int i))"
    by (rule visibleRange_start_core)
  have t: "0 < s + v" using assms(1,3) by linarith
  have lo: "(of_int i - 1/2) * h \<le> s + v - max ((s + v) / 2 ^ 53) (min_double / 2)"
    using md i52 assms(9) by (intro window_below) simp_all
  from binary64_error [OF t] consider "binary64 (s + v) = PInf"
    | y where "binary64 (s + v) = Fin y"
        "s + v - max ((s + v) / 2 ^ 53) (min_double / 2) \<le> y" by blast
  then have "binary64 (s + v) = PInf \<or>
     (\<exists>e. binary64 (s + v) = Fin e \<and> 0 \<le> e \<and> of_int i - 1/2 \<le> e / h)"
  proof cases
    case 1
    then show ?thesis by simp
  next
    case (2 y)
    have "(of_int i - 1/2) * h \<le> y" using lo 2(2) by linarith
    then have "of_int i - 1/2 \<le> y / h" using assms(2) by (simp add: pos_le_divide_eq)
    moreover have "0 \<le> y" using binary64_nonneg [of "s + v"] t 2(1) by auto
    ultimately show ?thesis using 2(1) by blast
  qed
  with assms(2) i0 assms(7,6,4)
  show "jle (Fin (of_int i))
          (endIndex (visibleRange (Fin s) (Fin h) (Fin v) (Fin (of_int n)) (Fin (of_int k))))"
    by (rule visibleRange_end_core)
qed

lemma visibleRange_computed_window:
  assumes "0 \<le> s" "0 < h" "0 < v" "0 \<le> k" "representable h" "n \<le> 2 ^ 52" "0 \<le> i" "i < n"
    "jle (Fin s) (jmul (Fin (of_int i)) (Fin h))"
    "jlt (jmul (Fin (of_int i)) (Fin h)) (jadd (Fin s) (Fin v))"
  shows "jle (startIndex (visibleRange (Fin s) (Fin h) (Fin v) (Fin (of_int n)) (Fin (of_int k))))
           (Fin (of_int i)) \<and>
         jle (Fin (of_int i))
           (endIndex (visibleRange (Fin s) (Fin h) (Fin v) (Fin (of_int n)) (Fin (of_int k))))"
proof -
  have i52: "i < 2 ^ 52" using assms(6,8) by simp
  have md: "min_double \<le> h" using assms(5,2) by (rule representable_lower)
  have a: "jle (Fin s) (binary64 (of_int i * h))" using assms(9) by simp
  have b: "jlt (binary64 (of_int i * h)) (binary64 (s + v))" using assms(10) by simp
  have "s / h \<le> of_int i + 1/2 \<and>
        (binary64 (s + v) = PInf \<or>
         (\<exists>e. binary64 (s + v) = Fin e \<and> 0 \<le> e \<and> of_int i - 1/2 \<le> e / h))"
  proof (cases "i = 0")
    case True
    have "s \<le> 0" using a True by (simp add: binary64_zero)
    then have "s / h \<le> 0" using assms(2) by (simp add: divide_nonpos_pos)
    moreover have i0: "(of_int i :: real) = 0" using True by simp
    ultimately have c: "s / h \<le> of_int i + 1/2" by linarith
    have "jlt (Fin 0) (binary64 (s + v))" using b True by (simp add: binary64_zero)
    then have "binary64 (s + v) = PInf \<or> (\<exists>e. binary64 (s + v) = Fin e \<and> 0 < e)"
      by (cases "binary64 (s + v)") simp_all
    then have "binary64 (s + v) = PInf \<or>
         (\<exists>e. binary64 (s + v) = Fin e \<and> 0 \<le> e \<and> of_int i - 1/2 \<le> e / h)"
    proof (elim disjE exE conjE)
      fix e assume e: "binary64 (s + v) = Fin e" "0 < e"
      have "0 \<le> e / h" using e(2) assms(2) by simp
      then have "of_int i - 1/2 \<le> e / h" using i0 by linarith
      then show ?thesis using e by auto
    qed simp
    with c show ?thesis by blast
  next
    case False
    then have i1: "1 \<le> i" using assms(7) by simp
    then have "(1::real) \<le> of_int i" by simp
    then have p: "0 < of_int i * h" using assms(2) by simp
    from binary64_error [OF p] b obtain y where y: "binary64 (of_int i * h) = Fin y"
      "of_int i * h - max (of_int i * h / 2 ^ 53) (min_double / 2) \<le> y"
      "y \<le> of_int i * h + max (of_int i * h / 2 ^ 53) (min_double / 2)"
      by (auto simp: jlt_PInf)
    have lo: "(of_int i - 1/2) * h \<le> y"
      using window_below [OF md, of i "of_int i * h"] i52 y(2) by simp
    have hi: "y \<le> (of_int i + 1/2) * h"
      using window_above [OF md, of i "of_int i * h"] i52 y(3) by simp
    have "s \<le> y" using a y(1) by simp
    then have "s \<le> (of_int i + 1/2) * h" using hi by linarith
    then have c: "s / h \<le> of_int i + 1/2" using assms(2) by (simp add: pos_divide_le_eq)
    have "(0::real) \<le> of_int i - 1/2" using i1 by simp
    then have y0: "0 \<le> (of_int i - 1/2) * h" using assms(2) by simp
    have "jlt (Fin y) (binary64 (s + v))" using b y(1) by simp
    then have "binary64 (s + v) = PInf \<or> (\<exists>e. binary64 (s + v) = Fin e \<and> y < e)"
      by (cases "binary64 (s + v)") simp_all
    then have "binary64 (s + v) = PInf \<or>
         (\<exists>e. binary64 (s + v) = Fin e \<and> 0 \<le> e \<and> of_int i - 1/2 \<le> e / h)"
    proof (elim disjE exE conjE)
      fix e assume e: "binary64 (s + v) = Fin e" "y < e"
      have "(of_int i - 1/2) * h \<le> e" using lo e(2) by linarith
      then have "of_int i - 1/2 \<le> e / h" using assms(2) by (simp add: pos_le_divide_eq)
      moreover have "0 \<le> e" using y0 lo e(2) by linarith
      ultimately show ?thesis using e(1) by auto
    qed simp
    with c show ?thesis by blast
  qed
  then show ?thesis
    using visibleRange_start_core [OF assms(2,7) i52 assms(4), of s "Fin v" "Fin (of_int n)"]
      visibleRange_end_core [OF assms(2,7,8,6,4), of s v]
    by blast
qed

lemma visibleRange_exact_quotients:
  assumes "0 \<le> s" "0 < h" "0 < v" "0 < n" "0 \<le> k" "n \<le> 2 ^ 52"
    "representable (s / h)" "representable (s + v)" "representable ((s + v) / h)"
    "(s + v) / h < 2 ^ 52" "k < 2 ^ 52"
  shows "visibleRange (Fin s) (Fin h) (Fin v) (Fin (of_int n)) (Fin (of_int k)) =
           \<lparr>startIndex = Fin (of_int (max 0 (\<lfloor>s / h\<rfloor> - k))),
            endIndex = Fin (of_int (min (n - 1) (\<lceil>(s + v) / h\<rceil> + k)))\<rparr>"
proof -
  have q1: "jdiv (Fin s) (Fin h) = Fin (s / h)"
    using assms(2,7) by (simp add: representable_def)
  have t: "jadd (Fin s) (Fin v) = Fin (s + v)"
    using assms(8) by (simp add: representable_def)
  have q2: "jdiv (Fin (s + v)) (Fin h) = Fin ((s + v) / h)"
    using assms(2,9) by (simp add: representable_def)
  define f where "f = \<lfloor>s / h\<rfloor>"
  define c where "c = \<lceil>(s + v) / h\<rceil>"
  have "s / h \<le> (s + v) / h" using assms(2,3) by (simp add: divide_right_mono)
  then have "s / h < of_int (2 ^ 52)" using assms(10) by simp
  then have f1: "f < 2 ^ 52" unfolding f_def by (simp only: floor_less_iff)
  have "of_int 0 \<le> s / h" using assms(1,2) by simp
  then have f0: "0 \<le> f" unfolding f_def by (simp only: le_floor_iff)
  have "\<bar>f - k\<bar> < 2 ^ 53" using f0 f1 assms(5,11) by simp
  then have "binary64 (of_int (f - k)) = Fin (of_int (f - k))"
    by (rule binary64_of_int)
  then have st: "jsub (Fin (of_int \<lfloor>s / h\<rfloor>)) (Fin (of_int k)) = Fin (of_int (\<lfloor>s / h\<rfloor> - k))"
    by (simp add: jsub_def f_def)
  have "of_int 0 \<le> (s + v) / h" using assms(1,2,3) by simp
  then have "0 \<le> \<lceil>(s + v) / h\<rceil>" by (metis ceiling_mono ceiling_of_int)
  then have c0: "0 \<le> c" by (simp only: c_def)
  have "(s + v) / h \<le> of_int (2 ^ 52)" using assms(10) by simp
  then have c1: "c \<le> 2 ^ 52" unfolding c_def by (simp only: ceiling_le_iff)
  have "\<bar>c + k\<bar> < 2 ^ 53" using c0 c1 assms(5,11) by simp
  then have "binary64 (of_int (c + k)) = Fin (of_int (c + k))"
    by (rule binary64_of_int)
  then have en: "jadd (Fin (of_int \<lceil>(s + v) / h\<rceil>)) (Fin (of_int k))
      = Fin (of_int (\<lceil>(s + v) / h\<rceil> + k))"
    by (simp add: c_def)
  have la: "jsub (Fin (of_int n)) (Fin 1) = Fin (of_int (n - 1))"
    using assms(4,6) by (rule last_index)
  have "startIndex (visibleRange (Fin s) (Fin h) (Fin v) (Fin (of_int n)) (Fin (of_int k)))
      = Fin (of_int (max 0 (\<lfloor>s / h\<rfloor> - k)))"
    unfolding visibleRange_fields q1 jfloor.simps st by (simp add: max_def)
  moreover have "endIndex (visibleRange (Fin s) (Fin h) (Fin v) (Fin (of_int n)) (Fin (of_int k)))
      = Fin (of_int (min (n - 1) (\<lceil>(s + v) / h\<rceil> + k)))"
    unfolding visibleRange_fields t q2 jceil.simps en la by (simp add: min_def)
  ultimately show ?thesis by simp
qed

lemma visibleRange_scenario:
  "visibleRange (Fin 205) (Fin 40) (Fin 400) (Fin 1000) (Fin 3)
     = \<lparr>startIndex = Fin 2, endIndex = Fin 19\<rparr>"
proof -
  have a: "representable (205 / 40)" using representable_dyadic [of 41 3] by simp
  have b: "representable (205 + 400)" using representable_int [of 605] by simp
  have c: "representable ((205 + 400) / 40)" using representable_dyadic [of 121 3] by simp
  have "visibleRange (Fin 205) (Fin 40) (Fin 400) (Fin (of_int 1000)) (Fin (of_int 3))
     = \<lparr>startIndex = Fin (of_int (max 0 (\<lfloor>205 / 40 :: real\<rfloor> - 3))),
        endIndex = Fin (of_int (min (1000 - 1) (\<lceil>(205 + 400) / 40 :: real\<rceil> + 3)))\<rparr>"
    using a b c by (intro visibleRange_exact_quotients) simp_all
  then show ?thesis by simp
qed

text \<open>
  The floor is taken of the rounded quotient: with \<open>itemHeight = 0.1\<close> (the double
  nearest to one tenth, a little above it) and \<open>scrollTop = 1\<close> the exact quotient is
  below 10 and its floor is 9, the quotient of the doubles is 10.
\<close>

lemma binary64_decimal_tenth:
  "binary64 (1 / (3602879701896397 / 2 ^ 55)) = Fin 10"
  by code_simp

lemma visibleRange_rounded_quotient:
  "startIndex (visibleRange (Fin 1) (Fin (3602879701896397 / 2 ^ 55)) (Fin 400) (Fin 1000) (Fin 0))
     = Fin 10 \<and>
   \<lfloor>1 / (3602879701896397 / 2 ^ 55) :: real\<rfloor> = 9"
proof -
  have "jdiv (Fin 1) (Fin (3602879701896397 / 2 ^ 55)) = Fin 10"
    using binary64_decimal_tenth by simp
  then have "startIndex (visibleRange (Fin 1) (Fin (3602879701896397 / 2 ^ 55)) (Fin 400)
      (Fin 1000) (Fin 0)) = Fin 10"
    unfolding visibleRange_fields by (simp add: jsub_def binary64_numeral)
  then show ?thesis by simp
qed

text \<open>
  Claim C3. For \<open>scrollTop \<ge> 0\<close>, \<open>itemHeight > 0\<close>, \<open>containerHeight > 0\<close>,
  \<open>totalItems > 0\<close> and \<open>overscan \<ge> 0\<close> the visible range is
  \<open>startIndex = max(0, floor(scrollTop / itemHeight) - overscan)\<close> and
  \<open>endIndex = min(totalItems - 1, ceil((scrollTop + containerHeight) / itemHeight) + overscan)\<close>,
  each operation being the one of double arithmetic; where the two quotients and the sum
  are doubles themselves, these are the formulas over the real numbers. Every item index
  \<open>i\<close> (an index below \<open>totalItems\<close>) whose offset \<open>i * itemHeight\<close> lies in
  \<open>[scrollTop, scrollTop + containerHeight)\<close> is within \<open>[startIndex, endIndex]\<close>: this holds
  for the offset and the window as real numbers, and also for the offset and the window
  end as the program computes them, in doubles. For scroll offset 205, item height 40,
  container height 400, 1000 items and overscan 3 the range is 2 to 19. The item height
  is a double, and the number of items, the length of an array, is at most \<open>2^52\<close>.
\<close>

theorem visibleRange_covers_window:
  fixes scrollTop itemHeight containerHeight :: real and totalItems overscan :: int
  defines "R \<equiv> visibleRange (Fin scrollTop) (Fin itemHeight) (Fin containerHeight)
                   (Fin (of_int totalItems)) (Fin (of_int overscan))"
  assumes "0 \<le> scrollTop" "0 < itemHeight" "0 < containerHeight" "0 < totalItems"
    "0 \<le> overscan" "representable itemHeight" "totalItems \<le> 2 ^ 52"
  shows "startIndex R =
           jmax (Fin 0)
             (jsub (jfloor (jdiv (Fin scrollTop) (Fin itemHeight))) (Fin (of_int overscan))) \<and>
         endIndex R =
           jmin (jsub (Fin (of_int totalItems)) (Fin 1))
             (jadd (jceil (jdiv (jadd (Fin scrollTop) (Fin containerHeight)) (Fin itemHeight)))
                (Fin (of_int overscan))) \<and>
         (representable (scrollTop / itemHeight) \<and> representable (scrollTop + containerHeight) \<and>
          representable ((scrollTop + containerHeight) / itemHeight) \<and>
          (scrollTop + containerHeight) / itemHeight < 2 ^ 52 \<and> overscan < 2 ^ 52 \<longrightarrow>
            startIndex R = Fin (of_int (max 0 (\<lfloor>scrollTop / itemHeight\<rfloor> - overscan))) \<and>
            endIndex R =
              Fin (of_int (min (totalItems - 1)
                     (\<lceil>(scrollTop + containerHeight) / itemHeight\<rceil> + overscan)))) \<and>
         (\<forall>i. i < totalItems \<and> scrollTop \<le> of_int i * itemHeight \<and>
               of_int i * itemHeight < scrollTop + containerHeight \<longrightarrow>
               jle (startIndex R) (Fin (of_int i)) \<and> jle (Fin (of_int i)) (endIndex R)) \<and>
         (\<forall>i. 0 \<le> i \<and> i < totalItems \<and>
               jle (Fin scrollTop) (jmul (Fin (of_int i)) (Fin itemHeight)) \<and>
               jlt (jmul (Fin (of_int i)) (Fin itemHeight))
                 (jadd (Fin scrollTop) (Fin containerHeight)) \<longrightarrow>
               jle (startIndex R) (Fin (of_int i)) \<and> jle (Fin (of_int i)) (endIndex R)) \<and>
         visibleRange (Fin 205) (Fin 40) (Fin 400) (Fin 1000) (Fin 3)
           = \<lparr>startIndex = Fin 2, endIndex = Fin 19\<rparr>"
proof (intro conjI allI impI)
  show "startIndex R =
           jmax (Fin 0)
             (jsub (jfloor (jdiv (Fin scrollTop) (Fin itemHeight))) (Fin (of_int overscan)))"
    unfolding R_def by (rule visibleRange_fields)
  show "endIndex R =
           jmin (jsub (Fin (of_int totalItems)) (Fin 1))
             (jadd (jceil (jdiv (jadd (Fin scrollTop) (Fin containerHeight)) (Fin itemHeight)))
                (Fin (of_int overscan)))"
    unfolding R_def by (rule visibleRange_fields)
  show "visibleRange (Fin 205) (Fin 40) (Fin 400) (Fin 1000) (Fin 3)
           = \<lparr>startIndex = Fin 2, endIndex = Fin 19\<rparr>"
    by (rule visibleRange_scenario)
next
  assume e: "representable (scrollTop / itemHeight) \<and> representable (scrollTop + containerHeight) \<and>
          representable ((scrollTop + containerHeight) / itemHeight) \<and>
          (scrollTop + containerHeight) / itemHeight < 2 ^ 52 \<and> overscan < 2 ^ 52"
  have "R = \<lparr>startIndex = Fin (of_int (max 0 (\<lfloor>scrollTop / itemHeight\<rfloor> - overscan))),
            endIndex = Fin (of_int (min (totalItems - 1)
                     (\<lceil>(scrollTop + containerHeight) / itemHeight\<rceil> + overscan)))\<rparr>"
    unfolding R_def using assms(2-6,8) e by (intro visibleRange_exact_quotients) simp_all
  then show "startIndex R = Fin (of_int (max 0 (\<lfloor>scrollTop / itemHeight\<rfloor> - overscan)))"
    and "endIndex R =
              Fin (of_int (min (totalItems - 1)
                     (\<lceil>(scrollTop + containerHeight) / itemHeight\<rceil> + overscan)))"
    by simp_all
next
  fix i :: int
  assume w: "i < totalItems \<and> scrollTop \<le> of_int i * itemHeight \<and>
             of_int i * itemHeight < scrollTop + containerHeight"
  have "jle (startIndex R) (Fin (of_int i)) \<and> jle (Fin (of_int i)) (endIndex R)"
    unfolding R_def using assms(2-4,6-8) w by (intro visibleRange_exact_window) simp_all
  then show "jle (startIndex R) (Fin (of_int i))" and "jle (Fin (of_int i)) (endIndex R)"
    by simp_all
next
  fix i :: int
  assume w: "0 \<le> i \<and> i < totalItems \<and>
               jle (Fin scrollTop) (jmul (Fin (of_int i)) (Fin itemHeight)) \<and>
               jlt (jmul (Fin (of_int i)) (Fin itemHeight))
                 (jadd (Fin scrollTop) (Fin containerHeight))"
  have "jle (startIndex R) (Fin (of_int i)) \<and> jle (Fin (of_int i)) (endIndex R)"
    unfolding R_def using assms(2-4,6-8) w by (intro visibleRange_computed_window) simp_all
  then show "jle (startIndex R) (Fin (of_int i))" and "jle (Fin (of_int i)) (endIndex R)"
    by simp_all
qed

theorem visibleRange_covers_window_witness:
  "representable 40 \<and>
   startIndex (visibleRange (Fin 205) (Fin 40) (Fin 400) (Fin 1000) (Fin 3)) = Fin 2 \<and>
   endIndex (visibleRange (Fin 205) (Fin 40) (Fin 400) (Fin 1000) (Fin 3)) = Fin 19 \<and>
   jle (startIndex (visibleRange (Fin 205) (Fin 40) (Fin 400) (Fin 1000) (Fin 3))) (Fin 6) \<and>
   jle (Fin 6) (endIndex (visibleRange (Fin 205) (Fin 40) (Fin 400) (Fin 1000) (Fin 3)))"
proof -
  have r: "representable 40" using representable_int [of 40] by simp
  have pre: "(0::real) \<le> 205" "(0::real) < 40" "(0::real) < 400" "(0::int) < 1000" "(0::int) \<le> 3"
    "(1000::int) \<le> 2 ^ 52"
    by simp_all
  note th = visibleRange_covers_window [OF pre(1-5) r pre(6)]
  have "(6::int) < 1000 \<and> (205::real) \<le> of_int 6 * 40 \<and> (of_int 6 * 40 :: real) < 205 + 400"
    by simp
  then have "jle (startIndex (visibleRange (Fin 205) (Fin 40) (Fin 400) (Fin (of_int 1000))
                 (Fin (of_int 3)))) (Fin (of_int 6)) \<and>
             jle (Fin (of_int 6)) (endIndex (visibleRange (Fin 205) (Fin 40) (Fin 400)
                 (Fin (of_int 1000)) (Fin (of_int 3))))"
    using th by blast
  moreover have "startIndex (visibleRange (Fin 205) (Fin 40) (Fin 400) (Fin 1000) (Fin 3)) = Fin 2 \<and>
                 endIndex (visibleRange (Fin 205) (Fin 40) (Fin 400) (Fin 1000) (Fin 3)) = Fin 19"
    using th by simp
  ultimately show ?thesis using r by simp
qed

end
